theory Spec2Isabelle
  imports Complex_Main "HOL-Library.Multiset" "HOL-Library.Monad_Syntax" "HOL-Library.Log_Nat"
begin

section \<open>WalkPlanner: the route optimizer of \<open>RouteOptimizer.tsx\<close>\<close>

text \<open>
  The optimizer searches for a short closed walk that covers every route (edge) drawn on
  a map. This theory embeds the data model (\<open>types/Route.ts\<close>) and the functions of the
  \<open>RouteOptimizer\<close> component one by one, and then states and proves properties of them.

  Conventions of the embedding.
  \<^item> A TypeScript \<open>number\<close> that can be \<open>Infinity\<close> (a tentative distance, a best
    distance so far) is a \<open>jsnum\<close>; a route's own \<open>distance\<close> is a finite real number.
    The functions are given twice: first with exact sums of distances, then, for the
    properties that depend on the value of a sum, with the sums of IEEE 754 doubles, which
    are rounded and can overflow to \<open>Infinity\<close>.
  \<^item> Node and route identifiers are natural numbers.
  \<^item> A function whose TypeScript body contains a loop with no evident bound returns an
    \<open>option\<close>: the value \<open>None\<close> means that the call does not return. A TypeScript
    result type \<open>T | null\<close> is again an \<open>option\<close>, so that such a function has a result
    of type \<open>T option option\<close>: \<open>Some None\<close> is the returned \<open>null\<close>.
\<close>

subsection \<open>Numbers\<close>

datatype jsnum = Num real | Infinity | NaN

text \<open>\<open>a < b\<close> on numbers: every comparison with \<open>NaN\<close> is false.\<close>

fun js_lt :: "jsnum \<Rightarrow> jsnum \<Rightarrow> bool" where
  "js_lt (Num a) (Num b) = (a < b)"
| "js_lt (Num a) Infinity = True"
| "js_lt _ _ = False"

text \<open>\<open>a + b\<close> where neither operand is \<open>-Infinity\<close>.\<close>

fun js_add :: "jsnum \<Rightarrow> jsnum \<Rightarrow> jsnum" where
  "js_add (Num a) (Num b) = Num (a + b)"
| "js_add NaN _ = NaN"
| "js_add _ NaN = NaN"
| "js_add _ _ = Infinity"

subsection \<open>Data model (\<open>types/Route.ts\<close>)\<close>

record node =
  node_id :: nat
  node_x :: real
  node_y :: real
  label :: string

record route =
  route_id :: nat
  startNodeId :: nat
  endNodeId :: nat
  distance :: real
  points :: "(real \<times> real) list"

text \<open>The props of the component: the routes and nodes it closes over.\<close>

record graph =
  nodes :: "node list"
  routes :: "route list"

text \<open>The result \<open>{ path, distance }\<close> of \<open>findShortestPath\<close>.\<close>

record shortest =
  sp_path :: "nat list"
  sp_distance :: jsnum

text \<open>The result \<open>{ path, totalDistance }\<close> of the walk builder and of the optimizer.\<close>

record walk =
  path :: "nat list"
  totalDistance :: jsnum

subsection \<open>\<open>findShortestPath\<close>\<close>

text \<open>
  \<open>unvisited\<close> is a \<open>Set<number>\<close>: it iterates in insertion order and ignores the
  insertion of a member. It is modelled as the list of its members in insertion order.
\<close>

definition set_add :: "nat list \<Rightarrow> nat \<Rightarrow> nat list" where
  "set_add s v = (if v \<in> set s then s else s @ [v])"

definition set_delete :: "nat list \<Rightarrow> nat \<Rightarrow> nat list" where
  "set_delete s v = removeAll v s"

text \<open>
  \<open>distances\<close> and \<open>previous\<close> are objects indexed by node id. Reading a key of
  \<open>distances\<close> that was never written gives \<open>undefined\<close>, which every use here (\<open><\<close>,
  \<open>+\<close>, \<open>=== Infinity\<close>) treats as \<open>NaN\<close>. In \<open>previous\<close>, \<open>None\<close> is a key never written,
  \<open>Some None\<close> is \<open>null\<close>.
\<close>

type_synonym distances = "nat \<Rightarrow> jsnum"
type_synonym previous = "nat \<Rightarrow> nat option option"

text \<open>The \<open>nodes.forEach\<close> that initialises the three structures.\<close>

definition init_node :: "node \<Rightarrow> distances \<times> previous \<times> nat list \<Rightarrow> distances \<times> previous \<times> nat list" where
  "init_node n st = (case st of (d, p, u) \<Rightarrow>
     (d(node_id n := Infinity), p(node_id n \<mapsto> None), set_add u (node_id n)))"

definition init_state :: "node list \<Rightarrow> distances \<times> previous \<times> nat list" where
  "init_state ns = fold init_node ns (\<lambda>_. NaN, Map.empty, [])"

text \<open>The inner \<open>for\<close> loop that finds the unvisited node with the smallest distance.\<close>

definition pick_step :: "distances \<Rightarrow> nat \<Rightarrow> nat option \<times> jsnum \<Rightarrow> nat option \<times> jsnum" where
  "pick_step d nodeId st = (case st of (current, minDistance) \<Rightarrow>
     if js_lt (d nodeId) minDistance then (Some nodeId, d nodeId) else (current, minDistance))"

definition pick_min :: "distances \<Rightarrow> nat list \<Rightarrow> nat option \<times> jsnum" where
  "pick_min d unvisited = fold (pick_step d) unvisited (None, Infinity)"

text \<open>The body of \<open>routes.forEach\<close>: relax one route at the current node.\<close>

definition relax_route :: "nat \<Rightarrow> nat list \<Rightarrow> route \<Rightarrow> distances \<times> previous \<Rightarrow> distances \<times> previous" where
  "relax_route current unvisited r st = (case st of (d, p) \<Rightarrow>
     (let neighbor = (if startNodeId r = current then Some (endNodeId r)
                      else if endNodeId r = current then Some (startNodeId r)
                      else None)
      in case neighbor of
           None \<Rightarrow> (d, p)
         | Some nb \<Rightarrow>
             if nb \<in> set unvisited then
               (let altDistance = js_add (d current) (Num (distance r))
                in if js_lt altDistance (d nb)
                   then (d(nb := altDistance), p(nb \<mapsto> Some current))
                   else (d, p))
             else (d, p)))"

text \<open>
  The path reconstruction \<open>while (node !== null) { path.unshift(node); node = previous[node] }\<close>.
  On a key that was never written \<open>previous[node]\<close> is \<open>undefined\<close>, which is not \<open>null\<close>,
  and from there the loop never ends.
\<close>

partial_function (option) reconstruct :: "previous \<Rightarrow> nat \<Rightarrow> nat list \<Rightarrow> nat list option" where
  "reconstruct p n acc =
     (case p n of
        None \<Rightarrow> None
      | Some q \<Rightarrow> (case q of
                    None \<Rightarrow> Some (n # acc)
                  | Some m \<Rightarrow> reconstruct p m (n # acc)))"

declare reconstruct.simps [code]

lemma pick_min_fold_mem:
  "fst (fold (pick_step d) us st) = Some c \<Longrightarrow> c \<in> set us \<or> fst st = Some c"
proof (induction us arbitrary: st)
  case Nil
  then show ?case by simp
next
  case (Cons u us)
  from Cons.IH [OF Cons.prems [simplified]] show ?case
    by (cases st) (auto simp: pick_step_def split: if_splits)
qed

lemma pick_min_mem: "fst (pick_min d us) = Some c \<Longrightarrow> c \<in> set us"
  using pick_min_fold_mem [of d us "(None, Infinity)" c] by (simp add: pick_min_def)

text \<open>The main \<open>while (unvisited.size > 0)\<close> loop.\<close>

function dijkstra_loop ::
  "route list \<Rightarrow> nat \<Rightarrow> distances \<Rightarrow> previous \<Rightarrow> nat list \<Rightarrow> shortest option option" where
  "dijkstra_loop rs endId d p unvisited =
     (if unvisited = [] then Some None
      else case fst (pick_min d unvisited) of
        None \<Rightarrow> Some None
      | Some current \<Rightarrow>
          if d current = Infinity then Some None
          else
            (let unvisited' = set_delete unvisited current
             in if current = endId
                then map_option (\<lambda>pth. Some \<lparr>sp_path = pth, sp_distance = d endId\<rparr>)
                       (reconstruct p endId [])
                else (case fold (relax_route current unvisited') rs (d, p) of
                        (d', p') \<Rightarrow> dijkstra_loop rs endId d' p' unvisited')))"
  by pat_completeness auto
termination
proof (relation "measure (\<lambda>(rs, endId, d, p, unvisited). length unvisited)", goal_cases)
  case 1
  show ?case by simp
next
  case 2
  then show ?case
    by (auto simp: set_delete_def dest!: pick_min_mem intro: length_removeAll_less)
qed

declare dijkstra_loop.simps [simp del]

definition findShortestPath :: "graph \<Rightarrow> nat \<Rightarrow> nat \<Rightarrow> shortest option option" where
  "findShortestPath g startId endId =
     (if startId = endId then Some (Some \<lparr>sp_path = [startId], sp_distance = Num 0\<rparr>)
      else case init_state (nodes g) of
        (d, p, unvisited) \<Rightarrow> dijkstra_loop (routes g) endId (d(startId := Num 0)) p unvisited)"

subsection \<open>\<open>getDistanceBetweenNodes\<close>\<close>

definition getDistanceBetweenNodes :: "graph \<Rightarrow> nat \<Rightarrow> nat \<Rightarrow> real" where
  "getDistanceBetweenNodes g nodeId1 nodeId2 =
     (case find (\<lambda>r. (startNodeId r = nodeId1 \<and> endNodeId r = nodeId2) \<or>
                      (startNodeId r = nodeId2 \<and> endNodeId r = nodeId1)) (routes g) of
        Some r \<Rightarrow> distance r
      | None \<Rightarrow> 0)"

subsection \<open>\<open>traverseEdgesInOrder\<close>\<close>

text \<open>
  The loop \<open>for (let i = 1; i < p.length; i++)\<close> that pushes the nodes of a connecting
  path after its first one and adds the distance of each hop.
\<close>

fun append_hops :: "graph \<Rightarrow> nat list \<Rightarrow> nat list \<times> real \<Rightarrow> nat list \<times> real" where
  "append_hops g (a # b # rest) (pth, tot) =
     append_hops g (b # rest) (pth @ [b], tot + getDistanceBetweenNodes g a b)"
| "append_hops g rest acc = acc"

text \<open>The choice between the connecting paths to the two endpoints of an edge.\<close>

definition choose_path :: "shortest option \<Rightarrow> shortest option \<Rightarrow> shortest option" where
  "choose_path pathToStart pathToEnd =
     (case pathToEnd of
        None \<Rightarrow> pathToStart
      | Some pe \<Rightarrow>
          (case pathToStart of
             None \<Rightarrow> pathToEnd
           | Some ps \<Rightarrow> if js_lt (sp_distance pe) (sp_distance ps) then pathToEnd
                        else pathToStart))"

text \<open>
  The state of the walk builder: \<open>path\<close>, \<open>currentNode\<close>, \<open>totalDistance\<close> and
  \<open>edgesCovered\<close>.
\<close>

type_synonym builder = "nat list \<times> nat \<times> real \<times> nat set"

text \<open>The connection to an edge that does not touch the current node.\<close>

definition connect_to :: "graph \<Rightarrow> route \<Rightarrow> nat list \<times> nat \<times> real \<Rightarrow> (nat list \<times> nat \<times> real) option" where
  "connect_to g edge st = (case st of (pth, currentNode, tot) \<Rightarrow>
     if currentNode \<noteq> startNodeId edge \<and> currentNode \<noteq> endNodeId edge then
       do {
         pathToStart \<leftarrow> findShortestPath g currentNode (startNodeId edge);
         pathToEnd \<leftarrow> findShortestPath g currentNode (endNodeId edge);
         Some (case choose_path pathToStart pathToEnd of
                 None \<Rightarrow> (pth, currentNode, tot)
               | Some chosenPath \<Rightarrow>
                   if length (sp_path chosenPath) > 1 then
                     (case append_hops g (sp_path chosenPath) (pth, tot) of
                        (pth', tot') \<Rightarrow> (pth', last (sp_path chosenPath), tot'))
                   else (pth, currentNode, tot))
       }
     else Some (pth, currentNode, tot))"

text \<open>The body of \<open>for (const edge of edgeOrder)\<close>.\<close>

definition traverse_edge :: "graph \<Rightarrow> route \<Rightarrow> builder \<Rightarrow> builder option" where
  "traverse_edge g edge st = (case st of (pth, currentNode, tot, edgesCovered) \<Rightarrow>
     if route_id edge \<in> edgesCovered then Some st
     else
       do {
         (pth1, current1, total1) \<leftarrow> connect_to g edge (pth, currentNode, tot);
         let current2 = (if current1 = startNodeId edge then endNodeId edge
                         else startNodeId edge);
         Some (pth1 @ [current2], current2, total1 + distance edge,
               insert (route_id edge) edgesCovered)
       })"

fun traverse_loop :: "graph \<Rightarrow> route list \<Rightarrow> builder \<Rightarrow> builder option" where
  "traverse_loop g [] st = Some st"
| "traverse_loop g (edge # rest) st = traverse_edge g edge st \<bind> traverse_loop g rest"

definition traverseEdgesInOrder :: "graph \<Rightarrow> nat \<Rightarrow> route list \<Rightarrow> walk option option" where
  "traverseEdgesInOrder g startId edgeOrder =
     do {
       (pth, currentNode, tot, edgesCovered) \<leftarrow>
          traverse_loop g edgeOrder ([startId], startId, 0, {});
       returnPath \<leftarrow> findShortestPath g currentNode startId;
       let (pth', tot') =
         (case returnPath of
            None \<Rightarrow> (pth, tot)
          | Some rp \<Rightarrow> if length (sp_path rp) > 1
                       then append_hops g (sp_path rp) (pth, tot)
                       else (pth, tot));
       Some (Some \<lparr>path = pth', totalDistance = Num tot'\<rparr>)
     }"

subsection \<open>Edge orders\<close>

function getEdgePermutations :: "route list \<Rightarrow> route list list" where
  "getEdgePermutations edges =
     (if length edges \<le> 1 then [edges]
      else concat (map (\<lambda>i. map (\<lambda>perm. edges ! i # perm)
                                 (getEdgePermutations (take i edges @ drop (Suc i) edges)))
                       [0..<length edges]))"
  by pat_completeness auto
termination
  by (relation "measure length") auto

declare getEdgePermutations.simps [simp del]

text \<open>
  \<open>generateSmartEdgeOrders\<close>: the stable sorts by ascending and by descending distance,
  then ten orders \<open>[...edges].sort(() => Math.random() - 0.5)\<close>. The result of sorting with
  a random comparator is decided by the JavaScript engine and its random numbers: it is
  the parameter \<open>shuffled\<close>, where \<open>shuffled i edges\<close> is the \<open>i\<close>th such order.
\<close>

definition generateSmartEdgeOrders :: "(nat \<Rightarrow> route list \<Rightarrow> route list) \<Rightarrow> route list \<Rightarrow> route list list" where
  "generateSmartEdgeOrders shuffled edges =
     [sort_key distance edges, sort_key (\<lambda>r. - distance r) edges]
     @ map (\<lambda>i. shuffled i edges) [0..<10]"

definition getAllEdgePermutations :: "(nat \<Rightarrow> route list \<Rightarrow> route list) \<Rightarrow> route list \<Rightarrow> route list list" where
  "getAllEdgePermutations shuffled edges =
     (if length edges \<le> 1 then [edges]
      else if length edges > 8 then generateSmartEdgeOrders shuffled edges
      else getEdgePermutations edges)"

subsection \<open>\<open>findOptimalPathFromStart\<close> and \<open>optimizeRoute\<close>\<close>

text \<open>The update \<open>if (result && result.totalDistance < best) { ... }\<close> of both search loops.\<close>

definition keep_best :: "walk option \<Rightarrow> nat list \<times> jsnum \<Rightarrow> nat list \<times> jsnum" where
  "keep_best result best = (case result of
       None \<Rightarrow> best
     | Some r \<Rightarrow> if js_lt (totalDistance r) (snd best) then (path r, totalDistance r) else best)"

fun best_loop :: "graph \<Rightarrow> nat \<Rightarrow> route list list \<Rightarrow> nat list \<times> jsnum \<Rightarrow> (nat list \<times> jsnum) option" where
  "best_loop g startId [] best = Some best"
| "best_loop g startId (edgeOrder # rest) best =
     do {
       result \<leftarrow> traverseEdgesInOrder g startId edgeOrder;
       best_loop g startId rest (keep_best result best)
     }"

definition findOptimalPathFromStart ::
  "(nat \<Rightarrow> route list \<Rightarrow> route list) \<Rightarrow> graph \<Rightarrow> nat \<Rightarrow> walk option option" where
  "findOptimalPathFromStart shuffled g startId =
     do {
       (bestPath, bestDistance) \<leftarrow>
          best_loop g startId (getAllEdgePermutations shuffled (routes g)) ([], Infinity);
       Some (if length bestPath > 0
             then Some \<lparr>path = bestPath, totalDistance = bestDistance\<rparr>
             else None)
     }"

text \<open>
  The outcome of \<open>optimizeRoute\<close>: either the alert of one of the two guards, after which
  nothing is computed and \<open>onOptimize\<close> is not called, or the result object.
\<close>

datatype outcome = InvalidInput | Optimized walk

text \<open>
  The loop over the start nodes. Each call of \<open>findOptimalPathFromStart\<close> draws its own
  random orders: \<open>shuffled k\<close> are those of the \<open>k\<close>th call.
\<close>

fun global_loop ::
  "(nat \<Rightarrow> nat \<Rightarrow> route list \<Rightarrow> route list) \<Rightarrow> graph \<Rightarrow> nat \<Rightarrow> node list \<Rightarrow> nat list \<times> jsnum
     \<Rightarrow> (nat list \<times> jsnum) option" where
  "global_loop shuffled g k [] best = Some best"
| "global_loop shuffled g k (startNode # rest) best =
     do {
       result \<leftarrow> findOptimalPathFromStart (shuffled k) g (node_id startNode);
       global_loop shuffled g (Suc k) rest (keep_best result best)
     }"

definition optimizeRoute :: "(nat \<Rightarrow> nat \<Rightarrow> route list \<Rightarrow> route list) \<Rightarrow> graph \<Rightarrow> outcome option" where
  "optimizeRoute shuffled g =
     (if length (routes g) < 1 then Some InvalidInput
      else if length (routes g) > 12 then Some InvalidInput
      else do {
        (globalBestPath, globalMinDistance) \<leftarrow>
           global_loop shuffled g 0 (nodes g) ([], Infinity);
        Some (Optimized \<lparr>path = globalBestPath, totalDistance = globalMinDistance\<rparr>)
      })"

subsection \<open>The functions that add distances, in double arithmetic\<close>

text \<open>
  The functions above add distances as exact real numbers. The code adds IEEE 754
  doubles: the sum of two finite numbers is the exact sum rounded to a double, or
  \<open>Infinity\<close> when it overflows. The functions that add, and the functions that call them,
  are repeated here with the rounding as their first argument: \<open>fl x\<close> is the number that
  the exact sum \<open>x\<close> becomes. Everything else (the initialisation, the choice of the nearest
  unvisited node, the path reconstruction, the edge orders, \<open>keep_best\<close>) is as above. The
  rounding of JavaScript is \<open>binary64\<close>, defined after the functions.
\<close>

fun fp_add :: "(real \<Rightarrow> jsnum) \<Rightarrow> jsnum \<Rightarrow> jsnum \<Rightarrow> jsnum" where
  "fp_add fl (Num a) (Num b) = fl (a + b)"
| "fp_add fl NaN _ = NaN"
| "fp_add fl _ NaN = NaN"
| "fp_add fl _ _ = Infinity"

definition relax_route_fp ::
  "(real \<Rightarrow> jsnum) \<Rightarrow> nat \<Rightarrow> nat list \<Rightarrow> route \<Rightarrow> distances \<times> previous \<Rightarrow> distances \<times> previous" where
  "relax_route_fp fl current unvisited r st = (case st of (d, p) \<Rightarrow>
     (let neighbor = (if startNodeId r = current then Some (endNodeId r)
                      else if endNodeId r = current then Some (startNodeId r)
                      else None)
      in case neighbor of
           None \<Rightarrow> (d, p)
         | Some nb \<Rightarrow>
             if nb \<in> set unvisited then
               (let altDistance = fp_add fl (d current) (Num (distance r))
                in if js_lt altDistance (d nb)
                   then (d(nb := altDistance), p(nb \<mapsto> Some current))
                   else (d, p))
             else (d, p)))"

function dijkstra_loop_fp ::
  "(real \<Rightarrow> jsnum) \<Rightarrow> route list \<Rightarrow> nat \<Rightarrow> distances \<Rightarrow> previous \<Rightarrow> nat list
     \<Rightarrow> shortest option option" where
  "dijkstra_loop_fp fl rs endId d p unvisited =
     (if unvisited = [] then Some None
      else case fst (pick_min d unvisited) of
        None \<Rightarrow> Some None
      | Some current \<Rightarrow>
          if d current = Infinity then Some None
          else
            (let unvisited' = set_delete unvisited current
             in if current = endId
                then map_option (\<lambda>pth. Some \<lparr>sp_path = pth, sp_distance = d endId\<rparr>)
                       (reconstruct p endId [])
                else (case fold (relax_route_fp fl current unvisited') rs (d, p) of
                        (d', p') \<Rightarrow> dijkstra_loop_fp fl rs endId d' p' unvisited')))"
  by pat_completeness auto
termination
proof (relation "measure (\<lambda>(fl, rs, endId, d, p, unvisited). length unvisited)", goal_cases)
  case 1
  show ?case by simp
next
  case 2
  then show ?case
    by (auto simp: set_delete_def dest!: pick_min_mem intro: length_removeAll_less)
qed

declare dijkstra_loop_fp.simps [simp del]

definition findShortestPath_fp ::
  "(real \<Rightarrow> jsnum) \<Rightarrow> graph \<Rightarrow> nat \<Rightarrow> nat \<Rightarrow> shortest option option" where
  "findShortestPath_fp fl g startId endId =
     (if startId = endId then Some (Some \<lparr>sp_path = [startId], sp_distance = Num 0\<rparr>)
      else case init_state (nodes g) of
        (d, p, unvisited) \<Rightarrow>
          dijkstra_loop_fp fl (routes g) endId (d(startId := Num 0)) p unvisited)"

fun append_hops_fp ::
  "(real \<Rightarrow> jsnum) \<Rightarrow> graph \<Rightarrow> nat list \<Rightarrow> nat list \<times> jsnum \<Rightarrow> nat list \<times> jsnum" where
  "append_hops_fp fl g (a # b # rest) (pth, tot) =
     append_hops_fp fl g (b # rest)
       (pth @ [b], fp_add fl tot (Num (getDistanceBetweenNodes g a b)))"
| "append_hops_fp fl g rest acc = acc"

text \<open>The state of the walk builder, with \<open>totalDistance\<close> a double or \<open>Infinity\<close>.\<close>

type_synonym builder_fp = "nat list \<times> nat \<times> jsnum \<times> nat set"

definition connect_to_fp ::
  "(real \<Rightarrow> jsnum) \<Rightarrow> graph \<Rightarrow> route \<Rightarrow> nat list \<times> nat \<times> jsnum
     \<Rightarrow> (nat list \<times> nat \<times> jsnum) option" where
  "connect_to_fp fl g edge st = (case st of (pth, currentNode, tot) \<Rightarrow>
     if currentNode \<noteq> startNodeId edge \<and> currentNode \<noteq> endNodeId edge then
       do {
         pathToStart \<leftarrow> findShortestPath_fp fl g currentNode (startNodeId edge);
         pathToEnd \<leftarrow> findShortestPath_fp fl g currentNode (endNodeId edge);
         Some (case choose_path pathToStart pathToEnd of
                 None \<Rightarrow> (pth, currentNode, tot)
               | Some chosenPath \<Rightarrow>
                   if length (sp_path chosenPath) > 1 then
                     (case append_hops_fp fl g (sp_path chosenPath) (pth, tot) of
                        (pth', tot') \<Rightarrow> (pth', last (sp_path chosenPath), tot'))
                   else (pth, currentNode, tot))
       }
     else Some (pth, currentNode, tot))"

definition traverse_edge_fp ::
  "(real \<Rightarrow> jsnum) \<Rightarrow> graph \<Rightarrow> route \<Rightarrow> builder_fp \<Rightarrow> builder_fp option" where
  "traverse_edge_fp fl g edge st = (case st of (pth, currentNode, tot, edgesCovered) \<Rightarrow>
     if route_id edge \<in> edgesCovered then Some st
     else
       do {
         (pth1, current1, total1) \<leftarrow> connect_to_fp fl g edge (pth, currentNode, tot);
         let current2 = (if current1 = startNodeId edge then endNodeId edge
                         else startNodeId edge);
         Some (pth1 @ [current2], current2, fp_add fl total1 (Num (distance edge)),
               insert (route_id edge) edgesCovered)
       })"

fun traverse_loop_fp ::
  "(real \<Rightarrow> jsnum) \<Rightarrow> graph \<Rightarrow> route list \<Rightarrow> builder_fp \<Rightarrow> builder_fp option" where
  "traverse_loop_fp fl g [] st = Some st"
| "traverse_loop_fp fl g (edge # rest) st =
     traverse_edge_fp fl g edge st \<bind> traverse_loop_fp fl g rest"

definition traverseEdgesInOrder_fp ::
  "(real \<Rightarrow> jsnum) \<Rightarrow> graph \<Rightarrow> nat \<Rightarrow> route list \<Rightarrow> walk option option" where
  "traverseEdgesInOrder_fp fl g startId edgeOrder =
     do {
       (pth, currentNode, tot, edgesCovered) \<leftarrow>
          traverse_loop_fp fl g edgeOrder ([startId], startId, Num 0, {});
       returnPath \<leftarrow> findShortestPath_fp fl g currentNode startId;
       let (pth', tot') =
         (case returnPath of
            None \<Rightarrow> (pth, tot)
          | Some rp \<Rightarrow> if length (sp_path rp) > 1
                       then append_hops_fp fl g (sp_path rp) (pth, tot)
                       else (pth, tot));
       Some (Some \<lparr>path = pth', totalDistance = tot'\<rparr>)
     }"

fun best_loop_fp ::
  "(real \<Rightarrow> jsnum) \<Rightarrow> graph \<Rightarrow> nat \<Rightarrow> route list list \<Rightarrow> nat list \<times> jsnum
     \<Rightarrow> (nat list \<times> jsnum) option" where
  "best_loop_fp fl g startId [] best = Some best"
| "best_loop_fp fl g startId (edgeOrder # rest) best =
     do {
       result \<leftarrow> traverseEdgesInOrder_fp fl g startId edgeOrder;
       best_loop_fp fl g startId rest (keep_best result best)
     }"

definition findOptimalPathFromStart_fp ::
  "(real \<Rightarrow> jsnum) \<Rightarrow> (nat \<Rightarrow> route list \<Rightarrow> route list) \<Rightarrow> graph \<Rightarrow> nat
     \<Rightarrow> walk option option" where
  "findOptimalPathFromStart_fp fl shuffled g startId =
     do {
       (bestPath, bestDistance) \<leftarrow>
          best_loop_fp fl g startId (getAllEdgePermutations shuffled (routes g)) ([], Infinity);
       Some (if length bestPath > 0
             then Some \<lparr>path = bestPath, totalDistance = bestDistance\<rparr>
             else None)
     }"

fun global_loop_fp ::
  "(real \<Rightarrow> jsnum) \<Rightarrow> (nat \<Rightarrow> nat \<Rightarrow> route list \<Rightarrow> route list) \<Rightarrow> graph \<Rightarrow> nat \<Rightarrow> node list
     \<Rightarrow> nat list \<times> jsnum \<Rightarrow> (nat list \<times> jsnum) option" where
  "global_loop_fp fl shuffled g k [] best = Some best"
| "global_loop_fp fl shuffled g k (startNode # rest) best =
     do {
       result \<leftarrow> findOptimalPathFromStart_fp fl (shuffled k) g (node_id startNode);
       global_loop_fp fl shuffled g (Suc k) rest (keep_best result best)
     }"

definition optimizeRoute_fp ::
  "(real \<Rightarrow> jsnum) \<Rightarrow> (nat \<Rightarrow> nat \<Rightarrow> route list \<Rightarrow> route list) \<Rightarrow> graph \<Rightarrow> outcome option" where
  "optimizeRoute_fp fl shuffled g =
     (if length (routes g) < 1 then Some InvalidInput
      else if length (routes g) > 12 then Some InvalidInput
      else do {
        (globalBestPath, globalMinDistance) \<leftarrow>
           global_loop_fp fl shuffled g 0 (nodes g) ([], Infinity);
        Some (Optimized \<lparr>path = globalBestPath, totalDistance = globalMinDistance\<rparr>)
      })"

subsection \<open>Rounding to a double\<close>

text \<open>
  The rounding of a real number to an IEEE 754 binary64 number, to nearest with ties to
  even, which is the rounding of every JavaScript sum. A double has 53 significant bits.
  \<open>rne\<close> rounds to the nearest integer, a tie to the even one. \<open>exponent a\<close> is the binary
  exponent of a positive number \<open>a\<close> (\<open>2 powi exponent a \<le> a < 2 powi (exponent a + 1)\<close>),
  but not less than \<open>-1022\<close>, where the subnormal numbers begin. \<open>round_magnitude a\<close>
  rounds \<open>a\<close> to a multiple of \<open>2 powi (exponent a - 52)\<close>, the spacing of the doubles around
  \<open>a\<close>. A rounded magnitude of \<open>2 ^ 1024\<close> or more is an overflow.

  \<open>jsnum\<close> has no \<open>-Infinity\<close>: the overflow of a negative sum, which is \<open>-Infinity\<close> in
  JavaScript, is given as \<open>NaN\<close>. It takes a negative distance to get there; the properties
  stated in double arithmetic are about distances that are not negative.
\<close>

definition rne :: "real \<Rightarrow> int" where
  "rne m = (let n = \<lfloor>m\<rfloor>; f = m - of_int n in
            if f < 1 / 2 then n else if 1 / 2 < f then n + 1 else if even n then n else n + 1)"

definition exponent :: "real \<Rightarrow> int" where
  "exponent a = (if 1 \<le> a then bitlen \<lfloor>a\<rfloor> - 1 else max (- bitlen (\<lceil>1 / a\<rceil> - 1)) (- 1022))"

definition round_magnitude :: "real \<Rightarrow> real" where
  "round_magnitude a = (let q = 2 powi (exponent a - 52) in of_int (rne (a / q)) * q)"

definition binary64 :: "real \<Rightarrow> jsnum" where
  "binary64 x = (if x = 0 then Num 0 else
     (let y = round_magnitude \<bar>x\<bar>
      in if 2 ^ 1024 \<le> y then (if 0 < x then Infinity else NaN)
         else Num (if 0 < x then y else - y)))"

subsection \<open>Example graphs\<close>

definition mk_node :: "nat \<Rightarrow> node" where
  "mk_node i = \<lparr>node_id = i, node_x = 0, node_y = 0, label = ''n''\<rparr>"

definition mk_route :: "nat \<Rightarrow> nat \<Rightarrow> nat \<Rightarrow> real \<Rightarrow> route" where
  "mk_route i a b w = \<lparr>route_id = i, startNodeId = a, endNodeId = b, distance = w, points = []\<rparr>"

text \<open>A path of nine edges on ten nodes.\<close>

definition nine_edges :: "route list" where
  "nine_edges = map (\<lambda>i. mk_route i i (Suc i) (real i)) [1..<10]"

text \<open>A triangle whose direct route from 1 to 3 is longer than the way through 2.\<close>

definition triangle :: graph where
  "triangle = \<lparr>nodes = [mk_node 1, mk_node 2, mk_node 3],
               routes = [mk_route 1 1 2 10, mk_route 2 2 3 10, mk_route 3 1 3 25]\<rparr>"

text \<open>One route and a third node that no route touches.\<close>

definition lone_node :: graph where
  "lone_node = \<lparr>nodes = [mk_node 1, mk_node 2, mk_node 3], routes = [mk_route 1 1 2 10]\<rparr>"

text \<open>Two routes that share no node: two components.\<close>

definition two_parts :: graph where
  "two_parts = \<lparr>nodes = [mk_node 1, mk_node 2, mk_node 3, mk_node 4],
                routes = [mk_route 1 1 2 10, mk_route 2 3 4 10]\<rparr>"

text \<open>A route of negative distance, and a route to a node id that is not a node.\<close>

definition negative_route :: graph where
  "negative_route = \<lparr>nodes = [mk_node 1, mk_node 2], routes = [mk_route 1 1 2 (- 5)]\<rparr>"

definition unknown_node :: graph where
  "unknown_node = \<lparr>nodes = [mk_node 1], routes = [mk_route 1 1 2 10]\<rparr>"

text \<open>
  Two distances at the edge of the doubles: \<open>2 ^ 1023\<close>, the largest power of two that is
  a double (twice it overflows), and \<open>1 / 2 ^ 53\<close>, half the distance from 1 to the next
  double above it.
\<close>

definition huge_w :: real where
  "huge_w = 2 ^ 1023"

definition tiny_w :: real where
  "tiny_w = 1 / 2 ^ 53"

text \<open>A path of two routes of distance \<open>2 ^ 1023\<close>, and a single such route.\<close>

definition huge_path :: graph where
  "huge_path = \<lparr>nodes = [mk_node 1, mk_node 2, mk_node 3],
                routes = [mk_route 1 1 2 huge_w, mk_route 2 2 3 huge_w]\<rparr>"

definition huge_pair :: graph where
  "huge_pair = \<lparr>nodes = [mk_node 1, mk_node 2], routes = [mk_route 1 1 2 huge_w]\<rparr>"

text \<open>A triangle with one route of distance 1 and two routes of distance \<open>1 / 2 ^ 53\<close>.\<close>

definition tiny_triangle :: graph where
  "tiny_triangle = \<lparr>nodes = [mk_node 1, mk_node 2, mk_node 3],
      routes = [mk_route 1 1 2 1, mk_route 2 2 3 tiny_w, mk_route 3 3 1 tiny_w]\<rparr>"

section \<open>Notions used to state the properties\<close>

text \<open>A route joins two node ids, in either direction.\<close>

definition joins :: "route \<Rightarrow> nat \<Rightarrow> nat \<Rightarrow> bool" where
  "joins r a b \<longleftrightarrow>
     (startNodeId r = a \<and> endNodeId r = b) \<or> (startNodeId r = b \<and> endNodeId r = a)"

text \<open>Every two consecutive node ids of a sequence are joined by a route.\<close>

fun linked :: "route list \<Rightarrow> nat list \<Rightarrow> bool" where
  "linked rs (a # b # xs) = ((\<exists>r\<in>set rs. joins r a b) \<and> linked rs (b # xs))"
| "linked rs xs = True"

text \<open>
  The chain of \<open>previous\<close> entries that leads from a node back to the start node \<open>s\<close>,
  through nodes already visited (\<open>V\<close>), read from the start node forwards.
\<close>

inductive chain :: "route list \<Rightarrow> previous \<Rightarrow> nat set \<Rightarrow> nat \<Rightarrow> nat \<Rightarrow> nat list \<Rightarrow> bool"
  for rs :: "route list" and p :: previous and V :: "nat set" and s :: nat where
  chain_start: "p s = Some None \<Longrightarrow> chain rs p V s s [s]"
| chain_step: "chain rs p V s m xs \<Longrightarrow> m \<in> V \<Longrightarrow> p n = Some (Some m) \<Longrightarrow> r \<in> set rs \<Longrightarrow>
     joins r m n \<Longrightarrow> chain rs p V s n (xs @ [n])"

text \<open>
  The invariant of the main loop about \<open>previous\<close>: every node with a finite tentative
  distance has such a chain.
\<close>

definition chain_inv :: "route list \<Rightarrow> nat \<Rightarrow> distances \<Rightarrow> previous \<Rightarrow> nat list \<Rightarrow> nat set \<Rightarrow> bool" where
  "chain_inv rs s d p U V \<longleftrightarrow>
     V \<inter> set U = {} \<and>
     (\<forall>n. (n \<in> V \<or> n \<in> set U) \<and> js_lt (d n) Infinity \<longrightarrow> (\<exists>xs. chain rs p V s n xs))"

text \<open>The distance that \<open>append_hops\<close> adds for a connecting path.\<close>

fun hops_distance :: "graph \<Rightarrow> nat list \<Rightarrow> real" where
  "hops_distance g (a # b # rest) = getDistanceBetweenNodes g a b + hops_distance g (b # rest)"
| "hops_distance g rest = 0"

text \<open>
  The distinct edges of an edge order: the first occurrence of every route id that is
  not in \<open>seen\<close>.
\<close>

fun distinct_edges :: "nat set \<Rightarrow> route list \<Rightarrow> route list" where
  "distinct_edges seen [] = []"
| "distinct_edges seen (e # es) =
     (if route_id e \<in> seen then distinct_edges seen es
      else e # distinct_edges (insert (route_id e) seen) es)"

text \<open>
  The graph invariants of the data model: every route refers to nodes of the node list
  and has a non-negative distance. A valid input of the optimizer has 1 to 12 routes as
  well.
\<close>

definition well_formed :: "graph \<Rightarrow> bool" where
  "well_formed g \<longleftrightarrow>
     (\<forall>r\<in>set (routes g). startNodeId r \<in> node_id ` set (nodes g) \<and>
        endNodeId r \<in> node_id ` set (nodes g) \<and> 0 \<le> distance r)"


text \<open>The total distance of the walk that the walk builder returns.\<close>

definition walk_total :: "graph \<Rightarrow> nat \<Rightarrow> route list \<Rightarrow> real" where
  "walk_total g s es =
     (case traverseEdgesInOrder g s es of
        Some (Some w) \<Rightarrow> (case totalDistance w of Num x \<Rightarrow> x | _ \<Rightarrow> 0)
      | _ \<Rightarrow> 0)"



text \<open>
  A node sequence traverses a route when two consecutive node ids of it are the two ends
  of the route; it covers a graph when it traverses every route.
\<close>

fun traversed :: "route \<Rightarrow> nat list \<Rightarrow> bool" where
  "traversed r (a # b # xs) = (joins r a b \<or> traversed r (b # xs))"
| "traversed r xs = False"

definition covers :: "graph \<Rightarrow> nat list \<Rightarrow> bool" where
  "covers g xs = list_all (\<lambda>r. traversed r xs) (routes g)"

text \<open>\<open>a \<le> b\<close> on numbers: every comparison with \<open>NaN\<close> is false.\<close>

fun js_le :: "jsnum \<Rightarrow> jsnum \<Rightarrow> bool" where
  "js_le (Num a) (Num b) = (a \<le> b)"
| "js_le (Num a) Infinity = True"
| "js_le Infinity Infinity = True"
| "js_le _ _ = False"

text \<open>
  What the properties below need of a rounding, on the numbers that are not negative: it
  keeps 0, it is monotone, and a number that is the result of a rounding is kept.
\<close>

definition rounding :: "(real \<Rightarrow> jsnum) \<Rightarrow> bool" where
  "rounding fl \<longleftrightarrow>
     fl 0 = Num 0 \<and>
     (\<forall>x y. 0 \<le> x \<and> x \<le> y \<longrightarrow> js_le (fl x) (fl y)) \<and>
     (\<forall>x y. 0 \<le> x \<and> fl x = Num y \<longrightarrow> fl y = Num y)"

text \<open>A number that the rounding keeps and that is not negative, or \<open>Infinity\<close>.\<close>

definition nonneg_double :: "(real \<Rightarrow> jsnum) \<Rightarrow> jsnum \<Rightarrow> bool" where
  "nonneg_double fl a \<longleftrightarrow> a = Infinity \<or> (\<exists>x. a = Num x \<and> 0 \<le> x \<and> fl x = Num x)"

text \<open>
  \<open>reach_fp fl rs s v w\<close>: some path leads from \<open>s\<close> to \<open>v\<close> along the routes \<open>rs\<close>, taken in
  either direction, and \<open>w\<close> is its total distance in double arithmetic: the distances of
  its routes added one by one in the order of the path, starting from 0 at \<open>s\<close>, every sum
  rounded by \<open>fl\<close>. The total is \<open>Infinity\<close> when a sum overflows.
\<close>

inductive reach_fp :: "(real \<Rightarrow> jsnum) \<Rightarrow> route list \<Rightarrow> nat \<Rightarrow> nat \<Rightarrow> jsnum \<Rightarrow> bool"
  for fl :: "real \<Rightarrow> jsnum" and rs :: "route list" and s :: nat where
  reach_fp_start: "reach_fp fl rs s s (Num 0)"
| reach_fp_step: "reach_fp fl rs s u w \<Longrightarrow> r \<in> set rs \<Longrightarrow> joins r u v \<Longrightarrow>
     reach_fp fl rs s v (fp_add fl w (Num (distance r)))"

text \<open>
  The invariant of the main loop about \<open>distances\<close>, for the unvisited nodes \<open>U\<close> and the
  visited nodes \<open>V\<close>: the distance of a visited node is final and the least total of a
  path, the distance of an unvisited node is \<open>Infinity\<close> or the total of some path, every
  route from a visited to an unvisited node has been relaxed, and the start node is the
  first node visited.
\<close>

definition dist_inv_fp ::
  "(real \<Rightarrow> jsnum) \<Rightarrow> route list \<Rightarrow> nat \<Rightarrow> distances \<Rightarrow> nat list \<Rightarrow> nat set \<Rightarrow> bool" where
  "dist_inv_fp fl rs s d U V \<longleftrightarrow>
     V \<inter> set U = {} \<and>
     (\<forall>r\<in>set rs. startNodeId r \<in> V \<union> set U \<and> endNodeId r \<in> V \<union> set U \<and> 0 \<le> distance r) \<and>
     (\<forall>v\<in>V. \<exists>x. d v = Num x \<and> reach_fp fl rs s v (Num x) \<and>
        (\<forall>w. reach_fp fl rs s v w \<longrightarrow> js_le (Num x) w)) \<and>
     (\<forall>u\<in>set U. d u = Infinity \<or> (\<exists>x. d u = Num x \<and> reach_fp fl rs s u (Num x))) \<and>
     (\<forall>v\<in>V. \<forall>u\<in>set U. \<forall>r\<in>set rs. joins r v u \<longrightarrow>
         js_le (d u) (fp_add fl (d v) (Num (distance r)))) \<and>
     (s \<in> V \<or> (V = {} \<and> (\<forall>u\<in>set U. u \<noteq> s \<longrightarrow> d u = Infinity) \<and> (s \<in> set U \<longrightarrow> d s = Num 0)))"

text \<open>
  The sum of the distances of a list of routes in double arithmetic: added one by one in
  the order of the list, starting from 0, every sum rounded by \<open>fl\<close>.
\<close>

definition double_sum :: "(real \<Rightarrow> jsnum) \<Rightarrow> route list \<Rightarrow> jsnum" where
  "double_sum fl es = fold (\<lambda>e t. fp_add fl t (Num (distance e))) es (Num 0)"

section \<open>Properties\<close>

subsection \<open>The shortest-path loop and its \<open>previous\<close> chains\<close>

lemma js_lt_Infinity: "js_lt x Infinity \<longleftrightarrow> (\<exists>a. x = Num a)"
  by (cases x) auto

lemma js_lt_trans: "js_lt a b \<Longrightarrow> js_lt b c \<Longrightarrow> js_lt a c"
  by (cases a; cases b; cases c) auto

lemma js_lt_irrefl: "\<not> js_lt a a"
  by (cases a) auto

lemma pick_fold_inv:
  assumes "\<forall>u\<in>seen. \<not> js_lt (d u) (snd st)"
    and "case fst st of None \<Rightarrow> snd st = Infinity
         | Some c \<Rightarrow> c \<in> seen \<and> snd st = d c \<and> js_lt (d c) Infinity"
  shows "(\<forall>u\<in>seen \<union> set us. \<not> js_lt (d u) (snd (fold (pick_step d) us st))) \<and>
         (case fst (fold (pick_step d) us st) of None \<Rightarrow> snd (fold (pick_step d) us st) = Infinity
          | Some c \<Rightarrow> c \<in> seen \<union> set us \<and> snd (fold (pick_step d) us st) = d c \<and> js_lt (d c) Infinity)"
  using assms
proof (induction us arbitrary: seen st)
  case Nil
  then show ?case by (auto split: option.splits)
next
  case (Cons u us)
  obtain cur m where st: "st = (cur, m)" by (cases st)
  let ?st' = "pick_step d u st"
  have a: "\<forall>v\<in>insert u seen. \<not> js_lt (d v) (snd ?st')"
  proof (cases "js_lt (d u) m")
    case True
    then have "snd ?st' = d u" by (simp add: pick_step_def st)
    moreover have "\<not> js_lt (d v) (d u)" if "v \<in> seen" for v
      using Cons.prems(1) that True st js_lt_trans by fastforce
    ultimately show ?thesis by (auto simp: js_lt_irrefl)
  next
    case False
    then have "snd ?st' = m" by (simp add: pick_step_def st)
    with False Cons.prems(1) st show ?thesis by auto
  qed
  have b: "case fst ?st' of None \<Rightarrow> snd ?st' = Infinity
           | Some c \<Rightarrow> c \<in> insert u seen \<and> snd ?st' = d c \<and> js_lt (d c) Infinity"
  proof (cases "js_lt (d u) m")
    case True
    have "js_lt (d u) Infinity" using True by (cases "d u"; cases m) auto
    with True show ?thesis by (simp add: pick_step_def st)
  next
    case False
    with Cons.prems(2) st show ?thesis
      by (auto simp: pick_step_def split: option.splits)
  qed
  from Cons.IH [OF a b] show ?case by (auto split: option.splits)
qed

lemma pick_min_Some:
  assumes "fst (pick_min d us) = Some c"
  shows "c \<in> set us" "js_lt (d c) Infinity" "\<forall>u\<in>set us. \<not> js_lt (d u) (d c)"
  using pick_fold_inv [of "{}" d "(None, Infinity)" us] assms
  by (auto simp: pick_min_def)

lemma pick_min_None:
  assumes "fst (pick_min d us) = None"
  shows "\<forall>u\<in>set us. \<not> js_lt (d u) Infinity"
  using pick_fold_inv [of "{}" d "(None, Infinity)" us] assms
  by (auto simp: pick_min_def)

lemma relax_route_cases:
  assumes "relax_route c U r (d, p) = (d', p')"
  shows "(d' = d \<and> p' = p) \<or>
         (\<exists>nb. nb \<in> set U \<and> joins r c nb \<and> js_lt (js_add (d c) (Num (distance r))) (d nb) \<and>
               d' = d(nb := js_add (d c) (Num (distance r))) \<and> p' = p(nb \<mapsto> Some c))"
  using assms
  by (auto simp: relax_route_def joins_def Let_def split: if_splits)

lemma relax_fold_frame:
  assumes "fold (relax_route c U) rs (d, p) = (d', p')"
  shows "(\<forall>n. n \<notin> set U \<longrightarrow> d' n = d n \<and> p' n = p n) \<and>
         (c \<notin> set U \<longrightarrow> (\<forall>n\<in>set U. (d' n = d n \<and> p' n = p n) \<or>
            (p' n = Some (Some c) \<and> (\<exists>r\<in>set rs. joins r c n \<and> d' n = js_add (d c) (Num (distance r))))))"
  using assms
proof (induction rs arbitrary: d' p' rule: rev_induct)
  case Nil
  then show ?case by simp
next
  case (snoc r rs)
  obtain d1 p1 where mid: "fold (relax_route c U) rs (d, p) = (d1, p1)"
    by (cases "fold (relax_route c U) rs (d, p)")
  with snoc.prems have step: "relax_route c U r (d1, p1) = (d', p')" by simp
  note IH = snoc.IH [OF mid]
  from relax_route_cases [OF step] show ?case
  proof (elim disjE exE conjE)
    assume "d' = d1" "p' = p1"
    with IH show ?thesis by auto
  next
    fix nb assume nb: "nb \<in> set U" "joins r c nb"
      and d': "d' = d1(nb := js_add (d1 c) (Num (distance r)))" and p': "p' = p1(nb \<mapsto> Some c)"
    have frame: "\<forall>n. n \<notin> set U \<longrightarrow> d' n = d n \<and> p' n = p n"
      using IH nb d' p' by auto
    have "(d' n = d n \<and> p' n = p n) \<or>
            (p' n = Some (Some c) \<and> (\<exists>r\<in>set (rs @ [r]). joins r c n \<and> d' n = js_add (d c) (Num (distance r))))"
      if c: "c \<notin> set U" and n: "n \<in> set U" for n
    proof (cases "n = nb")
      case True
      from IH c have "d1 c = d c" by simp
      with True nb d' p' show ?thesis by auto
    next
      case False
      with d' p' have "d' n = d1 n" "p' n = p1 n" by auto
      with IH c n show ?thesis by auto
    qed
    with frame show ?thesis by blast
  qed
qed

lemma chain_root: "chain rs p V s n xs \<Longrightarrow> n = s \<or> s \<in> V"
  by (induction rule: chain.induct) auto

lemma chain_mono:
  assumes "chain rs p V s n xs" "V \<subseteq> V'" "\<forall>k. k \<in> V \<or> k = s \<or> k = n \<longrightarrow> p' k = p k"
  shows "chain rs p' V' s n xs"
  using assms
proof (induction rule: chain.induct)
  case chain_start
  then show ?case by (auto intro: chain.chain_start)
next
  case (chain_step m xs n r)
  then have "chain rs p' V' s m xs" by auto
  moreover have "m \<in> V'" "p' n = Some (Some m)" using chain_step by auto
  ultimately show ?case using chain_step.hyps by (auto intro: chain.chain_step)
qed

lemma reconstruct_chain:
  "chain rs p V s n xs \<Longrightarrow> reconstruct p n acc = Some (xs @ acc)"
proof (induction arbitrary: acc rule: chain.induct)
  case chain_start
  then show ?case by (subst reconstruct.simps) simp
next
  case (chain_step m xs n r)
  have "reconstruct p n acc = reconstruct p m (n # acc)"
    using chain_step.hyps by (subst reconstruct.simps) simp
  with chain_step.IH [of "n # acc"] show ?case by simp
qed

lemma chain_inv_step:
  assumes inv: "chain_inv rs s d p U V"
    and pick: "fst (pick_min d U) = Some c"
    and fold: "fold (relax_route c (set_delete U c)) rs (d, p) = (d', p')"
  shows "chain_inv rs s d' p' (set_delete U c) (insert c V)"
proof -
  let ?U' = "set_delete U c" and ?V' = "insert c V"
  have U': "set ?U' = set U - {c}" by (simp add: set_delete_def)
  from pick_min_Some [OF pick] have cU: "c \<in> set U" and cfin: "js_lt (d c) Infinity" by auto
  from inv have disj: "V \<inter> set U = {}" by (simp add: chain_inv_def)
  from inv cU cfin obtain cs where cs: "chain rs p V s c cs" by (auto simp: chain_inv_def)
  from chain_root [OF cs] have sV': "s \<in> ?V'" by auto
  have disj': "?V' \<inter> set ?U' = {}" using disj U' by auto
  from relax_fold_frame [OF fold] U'
  have frame: "\<And>n. n \<notin> set ?U' \<Longrightarrow> d' n = d n \<and> p' n = p n"
    and upd: "\<And>n. n \<in> set ?U' \<Longrightarrow> (d' n = d n \<and> p' n = p n) \<or>
            (p' n = Some (Some c) \<and> (\<exists>r\<in>set rs. joins r c n \<and> d' n = js_add (d c) (Num (distance r))))"
    by auto
  have keep: "chain rs p' ?V' s n xs" if "chain rs p V s n xs" "p' n = p n" for n xs
  proof (rule chain_mono [OF that(1)])
    show "V \<subseteq> ?V'" by auto
    show "\<forall>k. k \<in> V \<or> k = s \<or> k = n \<longrightarrow> p' k = p k"
      using frame disj' sV' that(2) by (metis IntI empty_iff insertCI)
  qed
  from keep [OF cs] frame [of c] U' have cs': "chain rs p' ?V' s c cs" by simp
  have "\<exists>xs. chain rs p' ?V' s n xs" if n: "n \<in> ?V' \<or> n \<in> set ?U'" and fin: "js_lt (d' n) Infinity" for n
  proof (cases "n \<in> set ?U'")
    case False
    with n have nV': "n \<in> ?V'" by simp
    from frame [OF False] have same: "d' n = d n" "p' n = p n" by auto
    from nV' cU have "n \<in> V \<or> n \<in> set U" by auto
    with inv fin same obtain xs where "chain rs p V s n xs" by (auto simp: chain_inv_def)
    from keep [OF this same(2)] show ?thesis by blast
  next
    case True
    from upd [OF True] show ?thesis
    proof
      assume same: "d' n = d n \<and> p' n = p n"
      from True U' have "n \<in> set U" by simp
      with inv fin same obtain xs where "chain rs p V s n xs" by (auto simp: chain_inv_def)
      from keep [OF this] same show ?thesis by blast
    next
      assume "p' n = Some (Some c) \<and> (\<exists>r\<in>set rs. joins r c n \<and> d' n = js_add (d c) (Num (distance r)))"
      then obtain r where "p' n = Some (Some c)" "r \<in> set rs" "joins r c n" by auto
      with cs' have "chain rs p' ?V' s n (cs @ [n])" by (auto intro: chain.chain_step)
      then show ?thesis by blast
    qed
  qed
  with disj' show ?thesis by (simp add: chain_inv_def)
qed

lemma dijkstra_loop_chain:
  assumes "chain_inv rs s d p U V"
  shows "dijkstra_loop rs e d p U = Some None \<or>
         (\<exists>V' p' xs. chain rs p' V' s e xs \<and>
            (\<exists>x. dijkstra_loop rs e d p U = Some (Some \<lparr>sp_path = xs, sp_distance = Num x\<rparr>)))"
  using assms
proof (induction rs e d p U arbitrary: V rule: dijkstra_loop.induct)
  case (1 rs e d p U)
  show ?case
  proof (cases "U = []")
    case True
    then show ?thesis by (subst dijkstra_loop.simps) simp
  next
    case ne: False
    show ?thesis
    proof (cases "fst (pick_min d U)")
      case None
      with ne show ?thesis by (subst dijkstra_loop.simps) simp
    next
      case (Some c)
      from pick_min_Some [OF Some] have cU: "c \<in> set U" and cfin: "js_lt (d c) Infinity" by auto
      then obtain x where x: "d c = Num x" by (auto simp: js_lt_Infinity)
      show ?thesis
      proof (cases "c = e")
        case True
        from "1.prems" cU cfin obtain xs where xs: "chain rs p V s c xs"
          by (auto simp: chain_inv_def)
        from reconstruct_chain [OF xs, of "[]"] True x ne Some
        have "dijkstra_loop rs e d p U = Some (Some \<lparr>sp_path = xs, sp_distance = Num x\<rparr>)"
          by (subst dijkstra_loop.simps) simp
        with xs True show ?thesis by blast
      next
        case False
        obtain d' p' where f: "fold (relax_route c (set_delete U c)) rs (d, p) = (d', p')"
          by (cases "fold (relax_route c (set_delete U c)) rs (d, p)")
        have eq: "dijkstra_loop rs e d p U = dijkstra_loop rs e d' p' (set_delete U c)"
          using ne Some x False f by (subst dijkstra_loop.simps) simp
        from chain_inv_step [OF "1.prems" Some f]
        have "chain_inv rs s d' p' (set_delete U c) (insert c V)" .
        moreover from x have "d c \<noteq> Infinity" by simp
        ultimately show ?thesis
          using "1.IH" [OF ne Some _ refl False f [symmetric]] eq by simp
      qed
    qed
  qed
qed

lemma init_fold:
  assumes "fold init_node ns (d0, p0, U0) = (d, p, U)"
  shows "set U = set U0 \<union> node_id ` set ns \<and>
         (\<forall>n \<in> node_id ` set ns. d n = Infinity \<and> p n = Some None) \<and>
         (\<forall>n. n \<notin> node_id ` set ns \<longrightarrow> d n = d0 n \<and> p n = p0 n)"
  using assms
proof (induction ns arbitrary: d0 p0 U0)
  case Nil
  then show ?case by simp
next
  case (Cons x ns)
  let ?d1 = "d0(node_id x := Infinity)" and ?p1 = "p0(node_id x \<mapsto> None)"
    and ?U1 = "set_add U0 (node_id x)"
  have "init_node x (d0, p0, U0) = (?d1, ?p1, ?U1)" by (simp add: init_node_def)
  with Cons.prems have "fold init_node ns (?d1, ?p1, ?U1) = (d, p, U)" by simp
  from Cons.IH [OF this]
  have a: "set U = set ?U1 \<union> node_id ` set ns"
    and b: "\<forall>n \<in> node_id ` set ns. d n = Infinity \<and> p n = Some None"
    and c: "\<forall>n. n \<notin> node_id ` set ns \<longrightarrow> d n = ?d1 n \<and> p n = ?p1 n"
    by blast+
  have "set ?U1 = insert (node_id x) (set U0)" by (auto simp: set_add_def)
  with a have "set U = set U0 \<union> node_id ` set (x # ns)" by auto
  moreover have "\<forall>n \<in> node_id ` set (x # ns). d n = Infinity \<and> p n = Some None"
    using b c by (metis fun_upd_same image_insert insertE list.simps(15))
  moreover have "\<forall>n. n \<notin> node_id ` set (x # ns) \<longrightarrow> d n = d0 n \<and> p n = p0 n"
    using c by auto
  ultimately show ?case by blast
qed

lemma init_state_props:
  assumes "init_state ns = (d, p, U)"
  shows "set U = node_id ` set ns"
    and "\<forall>n \<in> set U. d n = Infinity \<and> p n = Some None"
    and "\<forall>n. n \<notin> set U \<longrightarrow> d n = NaN \<and> p n = None"
  using init_fold [of ns "\<lambda>_. NaN" Map.empty "[]" d p U] assms
  by (auto simp: init_state_def)

lemma init_chain_inv:
  assumes "init_state ns = (d, p, U)"
  shows "chain_inv rs s (d(s := Num 0)) p U {}"
proof -
  note props = init_state_props [OF assms]
  have "\<exists>xs. chain rs p {} s n xs" if "n \<in> set U" "js_lt ((d(s := Num 0)) n) Infinity" for n
  proof -
    from that props(2) have "n = s" by (cases "n = s") auto
    with that props(2) have "p s = Some None" by auto
    with \<open>n = s\<close> show ?thesis by (auto intro: chain.chain_start)
  qed
  then show ?thesis by (auto simp: chain_inv_def)
qed

lemma findShortestPath_chain:
  "findShortestPath g s e = Some None \<or>
   (\<exists>V p xs x. chain (routes g) p V s e xs \<and>
      findShortestPath g s e = Some (Some \<lparr>sp_path = xs, sp_distance = Num x\<rparr>))"
proof (cases "s = e")
  case True
  have "chain (routes g) (\<lambda>_. Some None) {} s s [s]" by (rule chain.chain_start) simp
  with True show ?thesis by (auto simp: findShortestPath_def)
next
  case False
  obtain d p U where i: "init_state (nodes g) = (d, p, U)"
    by (cases "init_state (nodes g)") auto
  from dijkstra_loop_chain [OF init_chain_inv [OF i], where e = e and rs = "routes g" and s = s] False i
  show ?thesis by (auto simp: findShortestPath_def)
qed

lemma findShortestPath_returns: "\<exists>r. findShortestPath g s e = Some r"
  using findShortestPath_chain [of g s e] by auto

lemma linked_snoc:
  "xs \<noteq> [] \<Longrightarrow> linked rs (xs @ [n]) \<longleftrightarrow> linked rs xs \<and> (\<exists>r\<in>set rs. joins r (last xs) n)"
  by (induction rs xs rule: linked.induct) simp_all

lemma chain_path:
  "chain rs p V s n xs \<Longrightarrow> xs \<noteq> [] \<and> hd xs = s \<and> last xs = n \<and> linked rs xs"
proof (induction rule: chain.induct)
  case chain_start
  then show ?case by simp
next
  case (chain_step m xs n r)
  then show ?case by (auto simp: linked_snoc)
qed

subsection \<open>The walk builder always returns\<close>

lemma append_hops_eq:
  "append_hops g xs (pth, tot) = (pth @ tl xs, tot + hops_distance g xs)"
  by (induction g xs "(pth, tot)" arbitrary: pth tot rule: append_hops.induct) simp_all

lemma getDistanceBetweenNodes_nonneg:
  assumes "\<forall>r\<in>set (routes g). 0 \<le> distance r"
  shows "0 \<le> getDistanceBetweenNodes g a b"
proof (cases "find (\<lambda>r. (startNodeId r = a \<and> endNodeId r = b) \<or>
                      (startNodeId r = b \<and> endNodeId r = a)) (routes g)")
  case None
  then show ?thesis by (simp add: getDistanceBetweenNodes_def)
next
  case (Some r)
  then have "r \<in> set (routes g)" by (auto simp: find_Some_iff)
  with assms Some show ?thesis by (simp add: getDistanceBetweenNodes_def)
qed

lemma hops_distance_nonneg:
  assumes "\<forall>r\<in>set (routes g). 0 \<le> distance r"
  shows "0 \<le> hops_distance g xs"
  using assms
  by (induction g xs rule: hops_distance.induct) (auto simp: getDistanceBetweenNodes_nonneg)

lemma connect_to_result:
  "\<exists>pth' cur' extra. connect_to g edge (pth, cur, tot) = Some (pth @ pth', cur', tot + extra) \<and>
     ((\<forall>r\<in>set (routes g). 0 \<le> distance r) \<longrightarrow> 0 \<le> extra)"
proof (cases "cur \<noteq> startNodeId edge \<and> cur \<noteq> endNodeId edge")
  case False
  then have "connect_to g edge (pth, cur, tot) = Some (pth @ [], cur, tot + 0)"
    by (auto simp: connect_to_def)
  then show ?thesis
    by (intro exI [of _ "[]"] exI [of _ cur] exI [of _ "0::real"]) simp
next
  case True
  obtain ps where ps: "findShortestPath g cur (startNodeId edge) = Some ps"
    using findShortestPath_returns by blast
  obtain pe where pe: "findShortestPath g cur (endNodeId edge) = Some pe"
    using findShortestPath_returns by blast
  show ?thesis
  proof (cases "choose_path ps pe")
    case None
    with True ps pe have "connect_to g edge (pth, cur, tot) = Some (pth @ [], cur, tot + 0)"
      by (simp add: connect_to_def)
    then show ?thesis
      by (intro exI [of _ "[]"] exI [of _ cur] exI [of _ "0::real"]) simp
  next
    case (Some cp)
    show ?thesis
    proof (cases "length (sp_path cp) > 1")
      case False
      with Some True ps pe have "connect_to g edge (pth, cur, tot) = Some (pth @ [], cur, tot + 0)"
        by (simp add: connect_to_def)
      then show ?thesis
        by (intro exI [of _ "[]"] exI [of _ cur] exI [of _ "0::real"]) simp
    next
      case long: True
      with Some True ps pe have "connect_to g edge (pth, cur, tot) =
         Some (pth @ tl (sp_path cp), last (sp_path cp), tot + hops_distance g (sp_path cp))"
        by (simp add: connect_to_def append_hops_eq)
      then show ?thesis
        by (intro exI [of _ "tl (sp_path cp)"] exI [of _ "last (sp_path cp)"]
              exI [of _ "hops_distance g (sp_path cp)"]) (simp add: hops_distance_nonneg)
    qed
  qed
qed

lemma traverse_edge_result:
  "\<exists>pth' cur' tot' cov'. traverse_edge g edge (pth, cur, tot, cov) = Some (pth @ pth', cur', tot', cov') \<and>
     ((\<forall>r\<in>set (routes g). 0 \<le> distance r) \<longrightarrow>
        (if route_id edge \<in> cov then tot' = tot \<and> cov' = cov
         else tot + distance edge \<le> tot' \<and> cov' = insert (route_id edge) cov))"
proof (cases "route_id edge \<in> cov")
  case True
  then have "traverse_edge g edge (pth, cur, tot, cov) = Some (pth @ [], cur, tot, cov)"
    by (simp add: traverse_edge_def)
  with True show ?thesis
    by (intro exI [of _ "[]"] exI [of _ cur] exI [of _ tot] exI [of _ cov]) simp
next
  case False
  from connect_to_result [of g edge pth cur tot] obtain pth1 cur1 extra where
    c: "connect_to g edge (pth, cur, tot) = Some (pth @ pth1, cur1, tot + extra)"
    and e: "(\<forall>r\<in>set (routes g). 0 \<le> distance r) \<longrightarrow> 0 \<le> extra" by blast
  let ?cur2 = "if cur1 = startNodeId edge then endNodeId edge else startNodeId edge"
  from False c have "traverse_edge g edge (pth, cur, tot, cov) =
     Some (pth @ (pth1 @ [?cur2]), ?cur2, tot + extra + distance edge, insert (route_id edge) cov)"
    by (simp add: traverse_edge_def Let_def)
  moreover have "(\<forall>r\<in>set (routes g). 0 \<le> distance r) \<longrightarrow>
       tot + distance edge \<le> tot + extra + distance edge" using e by simp
  ultimately show ?thesis using False
    by (intro exI [of _ "pth1 @ [?cur2]"] exI [of _ ?cur2] exI [of _ "tot + extra + distance edge"]
          exI [of _ "insert (route_id edge) cov"]) simp
qed

lemma traverse_loop_result:
  "\<exists>pth' cur' tot' cov'. traverse_loop g es (pth, cur, tot, cov) = Some (pth @ pth', cur', tot', cov') \<and>
     ((\<forall>r\<in>set (routes g). 0 \<le> distance r) \<longrightarrow>
        tot + sum_list (map distance (distinct_edges cov es)) \<le> tot')"
proof (induction es arbitrary: pth cur tot cov)
  case Nil
  have "traverse_loop g [] (pth, cur, tot, cov) = Some (pth @ [], cur, tot, cov)" by simp
  then show ?case
    by (intro exI [of _ "[]"] exI [of _ cur] exI [of _ tot] exI [of _ cov]) simp
next
  case (Cons e es)
  from traverse_edge_result [of g e pth cur tot cov] obtain pth1 cur1 tot1 cov1 where
    s: "traverse_edge g e (pth, cur, tot, cov) = Some (pth @ pth1, cur1, tot1, cov1)"
    and b: "(\<forall>r\<in>set (routes g). 0 \<le> distance r) \<longrightarrow>
        (if route_id e \<in> cov then tot1 = tot \<and> cov1 = cov
         else tot + distance e \<le> tot1 \<and> cov1 = insert (route_id e) cov)" by blast
  from Cons.IH [of "pth @ pth1" cur1 tot1 cov1] obtain pth2 cur2 tot2 cov2 where
    l: "traverse_loop g es (pth @ pth1, cur1, tot1, cov1) = Some ((pth @ pth1) @ pth2, cur2, tot2, cov2)"
    and b2: "(\<forall>r\<in>set (routes g). 0 \<le> distance r) \<longrightarrow>
        tot1 + sum_list (map distance (distinct_edges cov1 es)) \<le> tot2" by blast
  from s l have "traverse_loop g (e # es) (pth, cur, tot, cov) = Some (pth @ (pth1 @ pth2), cur2, tot2, cov2)"
    by simp
  moreover have "(\<forall>r\<in>set (routes g). 0 \<le> distance r) \<longrightarrow>
        tot + sum_list (map distance (distinct_edges cov (e # es))) \<le> tot2"
    using b b2 by (auto split: if_splits)
  ultimately show ?case by blast
qed

lemma traverseEdgesInOrder_result:
  "\<exists>pth x. traverseEdgesInOrder g s es = Some (Some \<lparr>path = s # pth, totalDistance = Num x\<rparr>) \<and>
     ((\<forall>r\<in>set (routes g). 0 \<le> distance r) \<longrightarrow>
        sum_list (map distance (distinct_edges {} es)) \<le> x)"
proof -
  from traverse_loop_result [of g es "[s]" s 0 "{}"] obtain pth1 cur1 tot1 cov1 where
    l: "traverse_loop g es ([s], s, 0, {}) = Some ([s] @ pth1, cur1, tot1, cov1)"
    and b: "(\<forall>r\<in>set (routes g). 0 \<le> distance r) \<longrightarrow>
        0 + sum_list (map distance (distinct_edges {} es)) \<le> tot1" by blast
  obtain rp where rp: "findShortestPath g cur1 s = Some rp"
    using findShortestPath_returns by blast
  show ?thesis
  proof (cases "\<exists>r. rp = Some r \<and> length (sp_path r) > 1")
    case True
    then obtain r where r: "rp = Some r" "length (sp_path r) > 1" by blast
    with l rp have "traverseEdgesInOrder g s es =
       Some (Some \<lparr>path = s # (pth1 @ tl (sp_path r)), totalDistance = Num (tot1 + hops_distance g (sp_path r))\<rparr>)"
      by (simp add: traverseEdgesInOrder_def append_hops_eq)
    moreover have "(\<forall>r\<in>set (routes g). 0 \<le> distance r) \<longrightarrow>
        sum_list (map distance (distinct_edges {} es)) \<le> tot1 + hops_distance g (sp_path r)"
      using b hops_distance_nonneg [of g "sp_path r"] by auto
    ultimately show ?thesis by blast
  next
    case False
    with l rp have "traverseEdgesInOrder g s es =
       Some (Some \<lparr>path = s # pth1, totalDistance = Num tot1\<rparr>)"
      by (auto simp: traverseEdgesInOrder_def split: option.splits)
    with b show ?thesis by auto
  qed
qed

subsection \<open>The edge orders\<close>

lemma mset_remove_nth:
  "i < length xs \<Longrightarrow> mset (take i xs @ drop (Suc i) xs) + {#xs ! i#} = mset xs"
proof -
  assume "i < length xs"
  then have "xs = take i xs @ xs ! i # drop (Suc i) xs" by (rule id_take_nth_drop)
  then have "mset xs = mset (take i xs @ xs ! i # drop (Suc i) xs)" by simp
  then show ?thesis by simp
qed

lemma getEdgePermutations_length:
  "length (getEdgePermutations edges) = fact (length edges)"
proof (induction edges rule: getEdgePermutations.induct)
  case (1 edges)
  show ?case
  proof (cases "length edges \<le> 1")
    case True
    then have "length edges = 0 \<or> length edges = 1" by arith
    then show ?thesis by (subst getEdgePermutations.simps) auto
  next
    case False
    then obtain n where n: "length edges = Suc n" by (cases "length edges") auto
    have each: "length (getEdgePermutations (take i edges @ drop (Suc i) edges)) = fact n"
      if "i < length edges" for i
    proof -
      have "length (take i edges @ drop (Suc i) edges) = n" using that n by simp
      with "1.IH" [OF False, of i] that show ?thesis by simp
    qed
    have "length (getEdgePermutations edges) =
          sum_list (map (\<lambda>i. length (getEdgePermutations (take i edges @ drop (Suc i) edges)))
                        [0..<length edges])"
      using False by (subst getEdgePermutations.simps) (simp add: length_concat comp_def)
    also have "\<dots> = sum_list (map (\<lambda>i. fact n) [0..<length edges])"
      by (rule arg_cong [where f = sum_list], rule map_cong) (auto simp: each)
    also have "\<dots> = fact (Suc n)"
      by (simp add: sum_list_triv n)
    finally show ?thesis by (simp add: n)
  qed
qed

lemma getEdgePermutations_set:
  "set (getEdgePermutations edges) = {p. mset p = mset edges}"
proof (induction edges rule: getEdgePermutations.induct)
  case (1 edges)
  show ?case
  proof (cases "length edges \<le> 1")
    case True
    then have "edges = [] \<or> (\<exists>x. edges = [x])"
      by (cases edges) auto
    then show ?thesis
      by (subst getEdgePermutations.simps) (auto simp: mset_single_iff_right)
  next
    case False
    have IH: "set (getEdgePermutations (take i edges @ drop (Suc i) edges)) =
              {p. mset p = mset (take i edges @ drop (Suc i) edges)}" if "i < length edges" for i
      using "1.IH" [OF False, of i] that by simp
    have unfold: "set (getEdgePermutations edges) =
        (\<Union>i\<in>{0..<length edges}. (\<lambda>perm. edges ! i # perm) `
            set (getEdgePermutations (take i edges @ drop (Suc i) edges)))"
      using False by (subst getEdgePermutations.simps) simp
    show ?thesis
    proof (intro set_eqI iffI)
      fix p assume "p \<in> set (getEdgePermutations edges)"
      then obtain i q where i: "i < length edges" and p: "p = edges ! i # q"
        and q: "q \<in> set (getEdgePermutations (take i edges @ drop (Suc i) edges))"
        unfolding unfold by auto
      from q IH [OF i] have "mset q = mset (take i edges @ drop (Suc i) edges)" by simp
      then have "mset p = mset (take i edges @ drop (Suc i) edges) + {#edges ! i#}"
        by (simp add: p)
      with mset_remove_nth [OF i] show "p \<in> {p. mset p = mset edges}" by simp
    next
      fix p assume "p \<in> {p. mset p = mset edges}"
      then have mp: "mset p = mset edges" by simp
      from False have "edges \<noteq> []" by auto
      with mp have "p \<noteq> []" by auto
      then obtain x q where p: "p = x # q" by (cases p) auto
      have "x \<in> set edges" using mp p by (metis list.set_intros(1) mset_eq_setD)
      then obtain i where i: "i < length edges" and x: "edges ! i = x"
        by (auto simp: in_set_conv_nth)
      have "mset q + {#x#} = mset (take i edges @ drop (Suc i) edges) + {#x#}"
        using mset_remove_nth [OF i] mp p x by simp
      then have "mset q = mset (take i edges @ drop (Suc i) edges)" by simp
      with IH [OF i] have "q \<in> set (getEdgePermutations (take i edges @ drop (Suc i) edges))"
        by simp
      with i x p show "p \<in> set (getEdgePermutations edges)"
        unfolding unfold by auto
    qed
  qed
qed

lemma mset_rotate1_eq: "mset (rotate1 xs) = mset xs"
  by (cases xs) simp_all

lemma mset_rotate_eq: "mset (rotate n xs) = mset xs"
  by (induction n) (simp_all add: mset_rotate1_eq)

text \<open>
  Claim C7. With at most one edge the edge-order generator returns the single trivial
  order; with 2 to 8 edges it returns \<open>n!\<close> orders, which are all the permutations of the
  edge list; with more than 8 edges it returns 12 orders; and in every case each order
  returned contains each input edge exactly once. The random sorts are assumed to return
  a permutation of their input, as \<open>Array.prototype.sort\<close> does.
\<close>

theorem getAllEdgePermutations_orders:
  assumes "\<forall>i xs. mset (shuffled i xs) = mset xs"
  shows "(length edges \<le> 1 \<longrightarrow> getAllEdgePermutations shuffled edges = [edges]) \<and>
         (2 \<le> length edges \<and> length edges \<le> 8 \<longrightarrow>
            length (getAllEdgePermutations shuffled edges) = fact (length edges) \<and>
            set (getAllEdgePermutations shuffled edges) = {p. mset p = mset edges}) \<and>
         (8 < length edges \<longrightarrow> length (getAllEdgePermutations shuffled edges) = 12) \<and>
         (\<forall>p \<in> set (getAllEdgePermutations shuffled edges). mset p = mset edges)"
proof (intro conjI impI ballI)
  assume "length edges \<le> 1"
  then show "getAllEdgePermutations shuffled edges = [edges]"
    by (simp add: getAllEdgePermutations_def)
next
  assume "2 \<le> length edges \<and> length edges \<le> 8"
  then have eq: "getAllEdgePermutations shuffled edges = getEdgePermutations edges"
    by (simp add: getAllEdgePermutations_def)
  show "length (getAllEdgePermutations shuffled edges) = fact (length edges)"
    unfolding eq by (rule getEdgePermutations_length)
  show "set (getAllEdgePermutations shuffled edges) = {p. mset p = mset edges}"
    unfolding eq by (rule getEdgePermutations_set)
next
  assume "8 < length edges"
  then show "length (getAllEdgePermutations shuffled edges) = 12"
    by (simp add: getAllEdgePermutations_def generateSmartEdgeOrders_def)
next
  fix p assume p: "p \<in> set (getAllEdgePermutations shuffled edges)"
  consider "length edges \<le> 1" | "8 < length edges" | "2 \<le> length edges" "length edges \<le> 8"
    by arith
  then show "mset p = mset edges"
  proof cases
    case 1
    with p show ?thesis by (simp add: getAllEdgePermutations_def)
  next
    case 2
    with p assms show ?thesis
      by (auto simp: getAllEdgePermutations_def generateSmartEdgeOrders_def)
  next
    case 3
    with p have "p \<in> set (getEdgePermutations edges)"
      by (simp add: getAllEdgePermutations_def)
    then show ?thesis by (simp add: getEdgePermutations_set)
  qed
qed


theorem getAllEdgePermutations_orders_witness:
  "(\<forall>i xs. mset (rotate i xs :: route list) = mset xs) \<and>
   getAllEdgePermutations rotate [mk_route 1 1 2 5] = [[mk_route 1 1 2 5]] \<and>
   length (getAllEdgePermutations rotate [mk_route 1 1 2 5, mk_route 2 2 3 7, mk_route 3 3 1 4]) = 6 \<and>
   length (getAllEdgePermutations rotate nine_edges) = 12 \<and>
   mset (getAllEdgePermutations rotate nine_edges ! 11) = mset nine_edges"
proof -
  have h: "\<forall>i xs. mset (rotate i xs :: route list) = mset xs"
    by (simp add: mset_rotate_eq)
  have n: "8 < length nine_edges" by (simp add: nine_edges_def)
  let ?three = "[mk_route 1 1 2 5, mk_route 2 2 3 7, mk_route 3 3 1 4]"
  have three: "2 \<le> length ?three \<and> length ?three \<le> 8" by simp
  have f: "fact (length ?three) = (6::nat)" by (simp add: fact_numeral)
  note one = getAllEdgePermutations_orders [OF h, of "[mk_route 1 1 2 5]"]
  note thr = getAllEdgePermutations_orders [OF h, of ?three]
  note nin = getAllEdgePermutations_orders [OF h, of nine_edges]
  from one have a: "getAllEdgePermutations rotate [mk_route 1 1 2 5] = [[mk_route 1 1 2 5]]"
    by simp
  from thr three have "length (getAllEdgePermutations rotate ?three) = fact (length ?three)"
    by blast
  with f have b: "length (getAllEdgePermutations rotate ?three) = 6" by (simp only:)
  from nin n have c: "length (getAllEdgePermutations rotate nine_edges) = 12" by blast
  from c have "getAllEdgePermutations rotate nine_edges ! 11
      \<in> set (getAllEdgePermutations rotate nine_edges)"
    by simp
  with nin have d: "mset (getAllEdgePermutations rotate nine_edges ! 11) = mset nine_edges"
    by blast
  from h a b c d show ?thesis by blast
qed

subsection \<open>The two search loops\<close>

lemma traverse_walk_total:
  "\<exists>pth. traverseEdgesInOrder g s es =
     Some (Some \<lparr>path = s # pth, totalDistance = Num (walk_total g s es)\<rparr>)"
  using traverseEdgesInOrder_result [of g s es] by (auto simp: walk_total_def)

lemma Min_insert_min:
  fixes A :: "real set"
  assumes "finite A"
  shows "Min (insert (min x m) A) = Min (insert m (insert x A))"
proof (cases "A = {}")
  case True
  then show ?thesis by (simp add: min.commute)
next
  case False
  with assms show ?thesis by (simp add: min.assoc min.commute)
qed

lemma best_loop_Num:
  "\<exists>bp'. best_loop g s os (bp, Num m) =
       Some (bp', Num (Min (insert m (walk_total g s ` set os)))) \<and> (bp \<noteq> [] \<longrightarrow> bp' \<noteq> [])"
proof (induction os arbitrary: bp m)
  case Nil
  then show ?case by simp
next
  case (Cons oo os)
  obtain pth where t: "traverseEdgesInOrder g s oo =
     Some (Some \<lparr>path = s # pth, totalDistance = Num (walk_total g s oo)\<rparr>)"
    using traverse_walk_total by blast
  let ?x = "walk_total g s oo"
  let ?bp1 = "if ?x < m then s # pth else bp"
  have k: "keep_best (Some \<lparr>path = s # pth, totalDistance = Num ?x\<rparr>) (bp, Num m) =
           (?bp1, Num (min ?x m))"
    by (simp add: keep_best_def min_def)
  from Cons.IH [of ?bp1 "min ?x m"] obtain bp' where
    r: "best_loop g s os (?bp1, Num (min ?x m)) =
        Some (bp', Num (Min (insert (min ?x m) (walk_total g s ` set os))))"
    and ne: "?bp1 \<noteq> [] \<longrightarrow> bp' \<noteq> []" by blast
  have "Min (insert (min ?x m) (walk_total g s ` set os)) =
        Min (insert m (walk_total g s ` set (oo # os)))"
    using Min_insert_min [of "walk_total g s ` set os" ?x m] by simp
  with r t k have "best_loop g s (oo # os) (bp, Num m) =
      Some (bp', Num (Min (insert m (walk_total g s ` set (oo # os)))))" by simp
  moreover have "bp \<noteq> [] \<longrightarrow> bp' \<noteq> []" using ne by (auto split: if_splits)
  ultimately show ?case by blast
qed

lemma best_loop_Infinity:
  assumes "os \<noteq> []"
  shows "\<exists>bp'. best_loop g s os ([], Infinity) =
       Some (bp', Num (Min (walk_total g s ` set os))) \<and> bp' \<noteq> []"
proof -
  from assms obtain oo rest where os: "os = oo # rest" by (cases os) auto
  obtain pth where t: "traverseEdgesInOrder g s oo =
     Some (Some \<lparr>path = s # pth, totalDistance = Num (walk_total g s oo)\<rparr>)"
    using traverse_walk_total by blast
  have k: "keep_best (Some \<lparr>path = s # pth, totalDistance = Num (walk_total g s oo)\<rparr>) ([], Infinity) =
           (s # pth, Num (walk_total g s oo))"
    by (simp add: keep_best_def)
  from best_loop_Num [of g s rest "s # pth" "walk_total g s oo"] obtain bp' where
    "best_loop g s rest (s # pth, Num (walk_total g s oo)) =
       Some (bp', Num (Min (insert (walk_total g s oo) (walk_total g s ` set rest))))"
    and "bp' \<noteq> []" by auto
  with t k os show ?thesis by simp
qed

lemma getAllEdgePermutations_nonempty: "getAllEdgePermutations sh es \<noteq> []"
proof -
  have "length (getEdgePermutations es) \<noteq> 0"
    by (simp add: getEdgePermutations_length)
  then show ?thesis
    by (auto simp: getAllEdgePermutations_def generateSmartEdgeOrders_def)
qed

lemma findOptimalPathFromStart_result:
  "\<exists>bp. findOptimalPathFromStart sh g s =
     Some (Some \<lparr>path = bp, totalDistance =
        Num (Min (walk_total g s ` set (getAllEdgePermutations sh (routes g))))\<rparr>)"
proof -
  from best_loop_Infinity [OF getAllEdgePermutations_nonempty, of g s sh "routes g"]
  obtain bp' where "best_loop g s (getAllEdgePermutations sh (routes g)) ([], Infinity) =
       Some (bp', Num (Min (walk_total g s ` set (getAllEdgePermutations sh (routes g)))))"
    and "bp' \<noteq> []" by blast
  then show ?thesis by (simp add: findOptimalPathFromStart_def)
qed

lemma global_loop_returns: "\<exists>r. global_loop sh g k ns best = Some r"
proof (induction ns arbitrary: k best)
  case Nil
  then show ?case by simp
next
  case (Cons n ns)
  from findOptimalPathFromStart_result [of "sh k" g "node_id n"] obtain r where
    "findOptimalPathFromStart (sh k) g (node_id n) = Some r" by blast
  with Cons.IH [of "Suc k" "keep_best r best"] show ?case by simp
qed







subsection \<open>A graph of two nodes and one route\<close>

lemma gd_pair:
  assumes "routes g = [r]" "joins r a b"
  shows "getDistanceBetweenNodes g a b = distance r" "getDistanceBetweenNodes g b a = distance r"
  using assms by (auto simp: getDistanceBetweenNodes_def joins_def)

subsection \<open>Paths returned by \<open>findShortestPath\<close>\<close>

text \<open>
  Claim C9. Every path that \<open>findShortestPath\<close> returns is a path of the graph: it starts
  at the source, ends at the target, and every two consecutive node ids of it are joined
  by a route. (This covers the one-node path of the case source = target as well.)
\<close>

theorem findShortestPath_valid_path:
  assumes "findShortestPath g s t = Some (Some r)"
  shows "sp_path r \<noteq> [] \<and> hd (sp_path r) = s \<and> last (sp_path r) = t \<and>
         linked (routes g) (sp_path r)"
  using findShortestPath_chain [of g s t] assms chain_path by fastforce

theorem findShortestPath_valid_path_witness:
  "findShortestPath triangle 1 3 = Some (Some \<lparr>sp_path = [1, 2, 3], sp_distance = Num 20\<rparr>) \<and>
   hd [1, 2, 3 :: nat] = 1 \<and> last [1, 2, 3 :: nat] = 3 \<and>
   linked (routes triangle) [1, 2, 3]"
proof -
  have e: "findShortestPath triangle 1 3 =
           Some (Some \<lparr>sp_path = [1, 2, 3], sp_distance = Num 20\<rparr>)"
    by code_simp
  from findShortestPath_valid_path [OF e] e show ?thesis by simp
qed

subsection \<open>The optimizer against the brute-force reference\<close>




subsection \<open>What the optimizer rejects\<close>

text \<open>
  Claim C5 says that the optimizer rejects an edge count of 0, an edge count above 12, an
  edge that refers to an unknown node id, and a negative edge weight. The two guards of
  \<open>optimizeRoute\<close> test the edge count only: a graph with a negative distance and a graph
  with a route to an unknown node id are both optimized.
\<close>

theorem optimizeRoute_accepts_bad_graph:
  "\<not> well_formed negative_route \<and>
   optimizeRoute (\<lambda>_ _ xs. xs) negative_route =
     Some (Optimized \<lparr>path = [1, 2, 1], totalDistance = Num (- 10)\<rparr>) \<and>
   \<not> well_formed unknown_node \<and>
   optimizeRoute (\<lambda>_ _ xs. xs) unknown_node =
     Some (Optimized \<lparr>path = [1, 2], totalDistance = Num 10\<rparr>)"
proof -
  have "\<not> well_formed negative_route"
    by (simp add: well_formed_def negative_route_def mk_route_def)
  moreover have "\<not> well_formed unknown_node"
    by (simp add: well_formed_def unknown_node_def mk_route_def mk_node_def)
  moreover have "optimizeRoute (\<lambda>_ _ xs. xs) negative_route =
     Some (Optimized \<lparr>path = [1, 2, 1], totalDistance = Num (- 10)\<rparr>)"
    by code_simp
  moreover have "optimizeRoute (\<lambda>_ _ xs. xs) unknown_node =
     Some (Optimized \<lparr>path = [1, 2], totalDistance = Num 10\<rparr>)"
    by code_simp
  ultimately show ?thesis by blast
qed

text \<open>
  Claim C5 as amended. The optimizer rejects its input, before any search and without a
  result, exactly when the number of routes is 0 or greater than 12; and it always
  returns, so that every other input is searched and a result is returned.
\<close>

theorem optimizeRoute_rejects:
  "(optimizeRoute sh g = Some InvalidInput \<longleftrightarrow> length (routes g) = 0 \<or> 12 < length (routes g)) \<and>
   (\<exists>res. optimizeRoute sh g = Some res)"
proof (cases "length (routes g) < 1 \<or> 12 < length (routes g)")
  case True
  then show ?thesis by (auto simp: optimizeRoute_def)
next
  case False
  obtain gp gd where "global_loop sh g 0 (nodes g) ([], Infinity) = Some (gp, gd)"
    using global_loop_returns [of sh g 0 "nodes g" "([], Infinity)"] by auto
  with False show ?thesis by (auto simp: optimizeRoute_def)
qed

theorem optimizeRoute_rejects_witness:
  "optimizeRoute (\<lambda>_ _ xs. xs) \<lparr>nodes = [mk_node 1, mk_node 2], routes = []\<rparr> = Some InvalidInput \<and>
   optimizeRoute (\<lambda>_ _ xs. xs)
     \<lparr>nodes = [mk_node 1, mk_node 2], routes = replicate 13 (mk_route 1 1 2 10)\<rparr> = Some InvalidInput"
  using optimizeRoute_rejects [of "\<lambda>_ _ xs. xs" "\<lparr>nodes = [mk_node 1, mk_node 2], routes = []\<rparr>"]
    optimizeRoute_rejects [of "\<lambda>_ _ xs. xs"
      "\<lparr>nodes = [mk_node 1, mk_node 2], routes = replicate 13 (mk_route 1 1 2 10)\<rparr>"]
  by simp

subsection \<open>Walks that are not closed or do not cover the graph\<close>

text \<open>
  When \<open>findShortestPath\<close> finds no path to an edge, \<open>traverseEdgesInOrder\<close> skips the
  connection and goes on as if it stood at an end of the edge; when it finds no path back
  to the start, it returns the walk unclosed. It never returns \<open>null\<close>.
\<close>

text \<open>
  Claim C2 at the graph \<open>lone_node\<close> (nodes 1, 2, 3 and one route between 1 and 2): the
  optimizer returns the sequence 3, 1, which does not end where it begins and does not
  traverse the route.
\<close>

theorem optimizeRoute_lone_node:
  "optimizeRoute sh lone_node = Some (Optimized \<lparr>path = [3, 1], totalDistance = Num 10\<rparr>) \<and>
   hd [3, 1 :: nat] \<noteq> last [3, 1] \<and> \<not> covers lone_node [3, 1]"
proof -
  have "optimizeRoute sh lone_node =
        Some (Optimized \<lparr>path = [3, 1], totalDistance = Num 10\<rparr>)"
    by code_simp
  moreover have "\<not> covers lone_node [3, 1]"
    by (simp add: covers_def lone_node_def mk_route_def joins_def)
  ultimately show ?thesis by simp
qed

text \<open>
  Claim C3 at the graph \<open>two_parts\<close> (routes 1--2 and 3--4, which share no node): the
  optimizer returns the sequence 1, 2, 3 with distance 20 as its result, although node 3
  cannot be reached from node 2.
\<close>

theorem optimizeRoute_two_parts:
  "optimizeRoute sh two_parts = Some (Optimized \<lparr>path = [1, 2, 3], totalDistance = Num 20\<rparr>) \<and>
   findShortestPath two_parts 2 3 = Some None"
proof -
  have "optimizeRoute sh two_parts =
        Some (Optimized \<lparr>path = [1, 2, 3], totalDistance = Num 20\<rparr>)"
    by code_simp
  moreover have "findShortestPath two_parts 2 3 = Some None" by code_simp
  ultimately show ?thesis by simp
qed

text \<open>
  Claim C4 at the same graph, start node 1 and the routes in their order: at the second
  route the current node 2 is neither end of it and neither end can be reached, and from
  the last node 3 the start cannot be reached; the walk builder returns a walk all the
  same.
\<close>

theorem traverseEdgesInOrder_two_parts:
  "findShortestPath two_parts 2 3 = Some None \<and> findShortestPath two_parts 2 4 = Some None \<and>
   findShortestPath two_parts 3 1 = Some None \<and>
   traverseEdgesInOrder two_parts 1 (routes two_parts) =
     Some (Some \<lparr>path = [1, 2, 3], totalDistance = Num 20\<rparr>)"
proof -
  have "findShortestPath two_parts 2 3 = Some None" by code_simp
  moreover have "findShortestPath two_parts 2 4 = Some None" by code_simp
  moreover have "findShortestPath two_parts 3 1 = Some None" by code_simp
  moreover have "traverseEdgesInOrder two_parts 1 (routes two_parts) =
     Some (Some \<lparr>path = [1, 2, 3], totalDistance = Num 20\<rparr>)" by code_simp
  ultimately show ?thesis by simp
qed

section \<open>Properties of the functions in double arithmetic\<close>

subsection \<open>The shortest-path loop always returns\<close>

lemma relax_route_fp_cases:
  assumes "relax_route_fp fl c U r (d, p) = (d', p')"
  shows "(d' = d \<and> p' = p) \<or>
         (\<exists>nb. nb \<in> set U \<and> joins r c nb \<and> js_lt (fp_add fl (d c) (Num (distance r))) (d nb) \<and>
               d' = d(nb := fp_add fl (d c) (Num (distance r))) \<and> p' = p(nb \<mapsto> Some c))"
  using assms
  by (auto simp: relax_route_fp_def joins_def Let_def split: if_splits)

lemma relax_fold_frame_fp:
  assumes "fold (relax_route_fp fl c U) rs (d, p) = (d', p')"
  shows "(\<forall>n. n \<notin> set U \<longrightarrow> d' n = d n \<and> p' n = p n) \<and>
         (c \<notin> set U \<longrightarrow> (\<forall>n\<in>set U. (d' n = d n \<and> p' n = p n) \<or>
            (p' n = Some (Some c) \<and> (\<exists>r\<in>set rs. joins r c n \<and> d' n = fp_add fl (d c) (Num (distance r))))))"
  using assms
proof (induction rs arbitrary: d' p' rule: rev_induct)
  case Nil
  then show ?case by simp
next
  case (snoc r rs)
  obtain d1 p1 where mid: "fold (relax_route_fp fl c U) rs (d, p) = (d1, p1)"
    by (cases "fold (relax_route_fp fl c U) rs (d, p)")
  with snoc.prems have step: "relax_route_fp fl c U r (d1, p1) = (d', p')" by simp
  note IH = snoc.IH [OF mid]
  from relax_route_fp_cases [OF step] show ?case
  proof (elim disjE exE conjE)
    assume "d' = d1" "p' = p1"
    with IH show ?thesis by auto
  next
    fix nb assume nb: "nb \<in> set U" "joins r c nb"
      and d': "d' = d1(nb := fp_add fl (d1 c) (Num (distance r)))" and p': "p' = p1(nb \<mapsto> Some c)"
    have frame: "\<forall>n. n \<notin> set U \<longrightarrow> d' n = d n \<and> p' n = p n"
      using IH nb d' p' by auto
    have "(d' n = d n \<and> p' n = p n) \<or>
            (p' n = Some (Some c) \<and> (\<exists>r\<in>set (rs @ [r]). joins r c n \<and> d' n = fp_add fl (d c) (Num (distance r))))"
      if c: "c \<notin> set U" and n: "n \<in> set U" for n
    proof (cases "n = nb")
      case True
      from IH c have "d1 c = d c" by simp
      with True nb d' p' show ?thesis by auto
    next
      case False
      with d' p' have "d' n = d1 n" "p' n = p1 n" by auto
      with IH c n show ?thesis by auto
    qed
    with frame show ?thesis by blast
  qed
qed

lemma chain_inv_step_fp:
  assumes inv: "chain_inv rs s d p U V"
    and pick: "fst (pick_min d U) = Some c"
    and fold: "fold (relax_route_fp fl c (set_delete U c)) rs (d, p) = (d', p')"
  shows "chain_inv rs s d' p' (set_delete U c) (insert c V)"
proof -
  let ?U' = "set_delete U c" and ?V' = "insert c V"
  have U': "set ?U' = set U - {c}" by (simp add: set_delete_def)
  from pick_min_Some [OF pick] have cU: "c \<in> set U" and cfin: "js_lt (d c) Infinity" by auto
  from inv have disj: "V \<inter> set U = {}" by (simp add: chain_inv_def)
  from inv cU cfin obtain cs where cs: "chain rs p V s c cs" by (auto simp: chain_inv_def)
  from chain_root [OF cs] have sV': "s \<in> ?V'" by auto
  have disj': "?V' \<inter> set ?U' = {}" using disj U' by auto
  from relax_fold_frame_fp [OF fold] U'
  have frame: "\<And>n. n \<notin> set ?U' \<Longrightarrow> d' n = d n \<and> p' n = p n"
    and upd: "\<And>n. n \<in> set ?U' \<Longrightarrow> (d' n = d n \<and> p' n = p n) \<or>
            (p' n = Some (Some c) \<and> (\<exists>r\<in>set rs. joins r c n \<and> d' n = fp_add fl (d c) (Num (distance r))))"
    by auto
  have keep: "chain rs p' ?V' s n xs" if "chain rs p V s n xs" "p' n = p n" for n xs
  proof (rule chain_mono [OF that(1)])
    show "V \<subseteq> ?V'" by auto
    show "\<forall>k. k \<in> V \<or> k = s \<or> k = n \<longrightarrow> p' k = p k"
      using frame disj' sV' that(2) by (metis IntI empty_iff insertCI)
  qed
  from keep [OF cs] frame [of c] U' have cs': "chain rs p' ?V' s c cs" by simp
  have "\<exists>xs. chain rs p' ?V' s n xs" if n: "n \<in> ?V' \<or> n \<in> set ?U'" and fin: "js_lt (d' n) Infinity" for n
  proof (cases "n \<in> set ?U'")
    case False
    with n have nV': "n \<in> ?V'" by simp
    from frame [OF False] have same: "d' n = d n" "p' n = p n" by auto
    from nV' cU have "n \<in> V \<or> n \<in> set U" by auto
    with inv fin same obtain xs where "chain rs p V s n xs" by (auto simp: chain_inv_def)
    from keep [OF this same(2)] show ?thesis by blast
  next
    case True
    from upd [OF True] show ?thesis
    proof
      assume same: "d' n = d n \<and> p' n = p n"
      from True U' have "n \<in> set U" by simp
      with inv fin same obtain xs where "chain rs p V s n xs" by (auto simp: chain_inv_def)
      from keep [OF this] same show ?thesis by blast
    next
      assume "p' n = Some (Some c) \<and> (\<exists>r\<in>set rs. joins r c n \<and> d' n = fp_add fl (d c) (Num (distance r)))"
      then obtain r where "p' n = Some (Some c)" "r \<in> set rs" "joins r c n" by auto
      with cs' have "chain rs p' ?V' s n (cs @ [n])" by (auto intro: chain.chain_step)
      then show ?thesis by blast
    qed
  qed
  with disj' show ?thesis by (simp add: chain_inv_def)
qed

lemma dijkstra_loop_fp_chain:
  assumes "chain_inv rs s d p U V"
  shows "dijkstra_loop_fp fl rs e d p U = Some None \<or>
         (\<exists>V' p' xs. chain rs p' V' s e xs \<and>
            (\<exists>x. dijkstra_loop_fp fl rs e d p U = Some (Some \<lparr>sp_path = xs, sp_distance = Num x\<rparr>)))"
  using assms
proof (induction fl rs e d p U arbitrary: V rule: dijkstra_loop_fp.induct)
  case (1 fl rs e d p U)
  show ?case
  proof (cases "U = []")
    case True
    then show ?thesis by (subst dijkstra_loop_fp.simps) simp
  next
    case ne: False
    show ?thesis
    proof (cases "fst (pick_min d U)")
      case None
      with ne show ?thesis by (subst dijkstra_loop_fp.simps) simp
    next
      case (Some c)
      from pick_min_Some [OF Some] have cU: "c \<in> set U" and cfin: "js_lt (d c) Infinity" by auto
      then obtain x where x: "d c = Num x" by (auto simp: js_lt_Infinity)
      show ?thesis
      proof (cases "c = e")
        case True
        from "1.prems" cU cfin obtain xs where xs: "chain rs p V s c xs"
          by (auto simp: chain_inv_def)
        from reconstruct_chain [OF xs, of "[]"] True x ne Some
        have "dijkstra_loop_fp fl rs e d p U = Some (Some \<lparr>sp_path = xs, sp_distance = Num x\<rparr>)"
          by (subst dijkstra_loop_fp.simps) simp
        with xs True show ?thesis by blast
      next
        case False
        obtain d' p' where f: "fold (relax_route_fp fl c (set_delete U c)) rs (d, p) = (d', p')"
          by (cases "fold (relax_route_fp fl c (set_delete U c)) rs (d, p)")
        have eq: "dijkstra_loop_fp fl rs e d p U = dijkstra_loop_fp fl rs e d' p' (set_delete U c)"
          using ne Some x False f by (subst dijkstra_loop_fp.simps) simp
        from chain_inv_step_fp [OF "1.prems" Some f]
        have "chain_inv rs s d' p' (set_delete U c) (insert c V)" .
        moreover from x have "d c \<noteq> Infinity" by simp
        ultimately show ?thesis
          using "1.IH" [OF ne Some _ refl False f [symmetric]] eq by simp
      qed
    qed
  qed
qed

lemma findShortestPath_fp_chain:
  "findShortestPath_fp fl g s e = Some None \<or>
   (\<exists>V p xs x. chain (routes g) p V s e xs \<and>
      findShortestPath_fp fl g s e = Some (Some \<lparr>sp_path = xs, sp_distance = Num x\<rparr>))"
proof (cases "s = e")
  case True
  have "chain (routes g) (\<lambda>_. Some None) {} s s [s]" by (rule chain.chain_start) simp
  with True show ?thesis by (auto simp: findShortestPath_fp_def)
next
  case False
  obtain d p U where i: "init_state (nodes g) = (d, p, U)"
    by (cases "init_state (nodes g)") auto
  from dijkstra_loop_fp_chain [OF init_chain_inv [OF i], where e = e and rs = "routes g" and s = s] False i
  show ?thesis by (auto simp: findShortestPath_fp_def)
qed

lemma findShortestPath_fp_returns: "\<exists>r. findShortestPath_fp fl g s e = Some r"
  using findShortestPath_fp_chain [of fl g s e] by auto


subsection \<open>The rounding to a double\<close>

lemma rne_of_int: "rne (of_int k) = k"
  by (simp add: rne_def)

lemma rne_cases: "rne m = \<lfloor>m\<rfloor> \<or> rne m = \<lfloor>m\<rfloor> + 1"
  by (simp add: rne_def Let_def)

lemma rne_mono: "m \<le> m' \<Longrightarrow> rne m \<le> rne m'"
proof -
  assume le: "m \<le> m'"
  then have fl: "\<lfloor>m\<rfloor> \<le> \<lfloor>m'\<rfloor>" by (rule floor_mono)
  show ?thesis
  proof (cases "\<lfloor>m\<rfloor> = \<lfloor>m'\<rfloor>")
    case True
    with le show ?thesis by (auto simp: rne_def Let_def)
  next
    case False
    with fl have "\<lfloor>m\<rfloor> + 1 \<le> \<lfloor>m'\<rfloor>" by simp
    with rne_cases [of m] rne_cases [of m'] show ?thesis by auto
  qed
qed

lemma rne_le: "m \<le> of_int k \<Longrightarrow> rne m \<le> k"
  using rne_mono [of m "of_int k"] by (simp add: rne_of_int)

lemma rne_ge: "of_int k \<le> m \<Longrightarrow> k \<le> rne m"
  using rne_mono [of "of_int k" m] by (simp add: rne_of_int)

lemma exponent_bounds:
  assumes "0 < a"
  shows "- 1022 \<le> exponent a" "a < 2 powi (exponent a + 1)"
    "2 powi (exponent a) \<le> a \<or> exponent a = - 1022"
proof -
  have "- 1022 \<le> exponent a \<and> a < 2 powi (exponent a + 1) \<and>
        (2 powi (exponent a) \<le> a \<or> exponent a = - 1022)"
  proof (cases "1 \<le> a")
    case True
    let ?n = "\<lfloor>a\<rfloor>" and ?b = "bitlen \<lfloor>a\<rfloor>"
    from True have n: "0 < ?n" by simp
    from bitlen_bounds [OF n] have lo: "2 ^ nat (?b - 1) \<le> ?n" and hi: "?n < 2 ^ nat ?b" by auto
    have b1: "1 \<le> ?b" using n by (simp add: bitlen_alt_def)
    have e: "exponent a = ?b - 1" using True by (simp add: exponent_def)
    have "real_of_int (2 ^ nat (?b - 1)) \<le> real_of_int ?n" using lo by linarith
    also have "\<dots> \<le> a" by simp
    finally have x3: "2 powi (?b - 1) \<le> a" using b1 by (simp add: power_int_nonneg_exp)
    from hi have "?n + 1 \<le> 2 ^ nat ?b" by simp
    then have "real_of_int (?n + 1) \<le> real_of_int (2 ^ nat ?b)" by linarith
    then have "real_of_int ?n + 1 \<le> 2 ^ nat ?b" by simp
    moreover have "a < real_of_int ?n + 1" by linarith
    ultimately have "a < 2 ^ nat ?b" by linarith
    then have x2: "a < 2 powi ?b" using b1 by (simp add: power_int_nonneg_exp)
    from e b1 x2 x3 show ?thesis by simp
  next
    case False
    with assms have a1: "a < 1" by simp
    let ?z = "1 / a"
    let ?c = "\<lceil>?z\<rceil> - 1" and ?b = "bitlen (\<lceil>?z\<rceil> - 1)"
    define P :: real where "P = 2 ^ nat ?b"
    define Q :: real where "Q = 2 ^ nat (?b - 1)"
    from a1 assms have z1: "1 < ?z" by simp
    then have c: "0 < ?c" by linarith
    from bitlen_bounds [OF c] have lo: "2 ^ nat (?b - 1) \<le> ?c" and hi: "?c < 2 ^ nat ?b" by auto
    have b1: "1 \<le> ?b" using c by (simp add: bitlen_alt_def)
    have cz: "real_of_int ?c < ?z" "?z \<le> real_of_int ?c + 1" by linarith+
    have "real_of_int (2 ^ nat (?b - 1)) \<le> real_of_int ?c" using lo by (rule of_int_le_iff [THEN iffD2])
    then have "Q \<le> real_of_int ?c" by (simp add: Q_def)
    with cz(1) have zlo: "Q < ?z" by linarith
    from hi have "?c + 1 \<le> 2 ^ nat ?b" by simp
    then have "real_of_int (?c + 1) \<le> real_of_int (2 ^ nat ?b)" by (rule of_int_le_iff [THEN iffD2])
    then have "real_of_int ?c + 1 \<le> P" by (simp add: P_def)
    with cz(2) have zhi: "?z \<le> P" by linarith
    have P0: "0 < P" and Q0: "0 < Q" by (simp_all add: P_def Q_def)
    have alo: "2 powi (- ?b) \<le> a"
    proof -
      from zhi assms P0 have "1 \<le> a * P" by (simp add: field_simps)
      with P0 have "1 / P \<le> a" by (simp add: field_simps)
      moreover have "2 powi (- ?b) = 1 / P"
        using b1 by (simp add: power_int_minus_divide power_int_nonneg_exp P_def)
      ultimately show ?thesis by simp
    qed
    have ahi: "a < 2 powi (- ?b + 1)"
    proof -
      from zlo assms Q0 have "a * Q < 1" by (simp add: field_simps)
      with Q0 have "a < 1 / Q" by (simp add: field_simps)
      moreover have "2 powi (- ?b + 1) = 1 / Q"
      proof -
        have "- ?b + 1 = - (?b - 1)" by simp
        then have "(2 :: real) powi (- ?b + 1) = 1 / 2 powi (?b - 1)"
          by (simp only: power_int_minus_divide)
        also have "\<dots> = 1 / Q" using b1 by (simp add: power_int_nonneg_exp Q_def)
        finally show ?thesis .
      qed
      ultimately show ?thesis by simp
    qed
    have e: "exponent a = max (- ?b) (- 1022)" using False by (simp add: exponent_def)
    show ?thesis
    proof (cases "- 1022 \<le> - ?b")
      case True
      with e have "exponent a = - ?b" by simp
      with True alo ahi show ?thesis by simp
    next
      case False
      with e have e': "exponent a = - 1022" by simp
      from False have "- ?b + 1 \<le> - 1021" by simp
      then have "(2 :: real) powi (- ?b + 1) \<le> 2 powi (- 1021)"
        by (intro power_int_increasing) auto
      with ahi e' show ?thesis by simp
    qed
  qed
  then show "- 1022 \<le> exponent a" "a < 2 powi (exponent a + 1)"
    "2 powi (exponent a) \<le> a \<or> exponent a = - 1022" by blast+
qed

lemma exponent_unique:
  assumes "0 < a" "- 1022 \<le> e" "a < 2 powi (e + 1)" "2 powi e \<le> a \<or> e = - 1022"
  shows "exponent a = e"
proof (rule ccontr)
  assume ne: "exponent a \<noteq> e"
  note b = exponent_bounds [OF assms(1)]
  show False
  proof (cases "exponent a < e")
    case True
    with b(1) assms(4) have "2 powi e \<le> a" by auto
    moreover from True have "(2 :: real) powi (exponent a + 1) \<le> 2 powi e"
      by (intro power_int_increasing) auto
    ultimately show False using b(2) by simp
  next
    case False
    with ne have lt: "e < exponent a" by simp
    with assms(2) b(3) have "2 powi (exponent a) \<le> a" by auto
    moreover from lt have "(2 :: real) powi (e + 1) \<le> 2 powi (exponent a)"
      by (intro power_int_increasing) auto
    ultimately show False using assms(3) by simp
  qed
qed

lemma exponent_mono:
  assumes "0 < a" "a \<le> b"
  shows "exponent a \<le> exponent b"
proof (rule ccontr)
  assume "\<not> exponent a \<le> exponent b"
  then have lt: "exponent b < exponent a" by simp
  from assms have b0: "0 < b" by simp
  note ba = exponent_bounds [OF assms(1)] and bb = exponent_bounds [OF b0]
  from lt bb(1) ba(3) have "2 powi (exponent a) \<le> a" by auto
  moreover from lt have "(2 :: real) powi (exponent b + 1) \<le> 2 powi (exponent a)"
    by (intro power_int_increasing) auto
  ultimately show False using bb(2) assms(2) by simp
qed


lemma pow2_split: "(2 :: real) powi (m + n) = 2 powi m * 2 powi n"
  by (simp add: power_int_add)

lemma pow2_up: "(2 :: real) powi (e + 1) = 2 ^ 53 * 2 powi (e - 52)"
proof -
  have "(2 :: real) powi (e + 1) = 2 powi (53 + (e - 52))"
    by (rule arg_cong [where f = "\<lambda>n. 2 powi n"]) simp
  also have "\<dots> = 2 powi 53 * 2 powi (e - 52)" by (rule pow2_split)
  finally show ?thesis by simp
qed

lemma pow2_mid: "(2 :: real) powi e = 2 ^ 52 * 2 powi (e - 52)"
proof -
  have "(2 :: real) powi e = 2 powi (52 + (e - 52))"
    by (rule arg_cong [where f = "\<lambda>n. 2 powi n"]) simp
  also have "\<dots> = 2 powi 52 * 2 powi (e - 52)" by (rule pow2_split)
  finally show ?thesis by simp
qed

lemma pow2_next: "(2 :: real) powi (e - 51) = 2 * 2 powi (e - 52)"
proof -
  have "(2 :: real) powi (e - 51) = 2 powi (1 + (e - 52))"
    by (rule arg_cong [where f = "\<lambda>n. 2 powi n"]) simp
  also have "\<dots> = 2 powi 1 * 2 powi (e - 52)" by (rule pow2_split)
  finally show ?thesis by simp
qed

lemma round_magnitude_bounds:
  assumes "0 < a"
  shows "0 \<le> rne (a / 2 powi (exponent a - 52))" "rne (a / 2 powi (exponent a - 52)) \<le> 2 ^ 53"
    "2 powi (exponent a) \<le> a \<Longrightarrow> 2 ^ 52 \<le> rne (a / 2 powi (exponent a - 52))"
proof -
  let ?E = "exponent a"
  let ?q = "(2 :: real) powi (?E - 52)"
  note b = exponent_bounds [OF assms]
  have q: "0 < ?q" by simp
  have up: "(2 :: real) powi (?E + 1) = 2 ^ 53 * ?q" by (rule pow2_up)
  have mid: "(2 :: real) powi ?E = 2 ^ 52 * ?q" by (rule pow2_mid)
  from assms q have "0 \<le> a / ?q" by simp
  then have "real_of_int 0 \<le> a / ?q" by simp
  then show "0 \<le> rne (a / ?q)" by (rule rne_ge)
  from b(2) up q have "a / ?q \<le> 2 ^ 53" by (simp add: field_simps)
  then have "a / ?q \<le> real_of_int (2 ^ 53)" by simp
  then show "rne (a / ?q) \<le> 2 ^ 53" by (rule rne_le)
  assume "2 powi ?E \<le> a"
  with mid q have "2 ^ 52 \<le> a / ?q" by (simp add: field_simps)
  then have "real_of_int (2 ^ 52) \<le> a / ?q" by simp
  then show "2 ^ 52 \<le> rne (a / ?q)" by (rule rne_ge)
qed

lemma round_magnitude_nonneg: "0 < a \<Longrightarrow> 0 \<le> round_magnitude a"
  using round_magnitude_bounds(1) [of a] by (simp add: round_magnitude_def Let_def)

lemma round_magnitude_representable:
  assumes "0 < k" "k < 2 ^ 53" "- 1074 \<le> j"
  shows "round_magnitude (of_int k * 2 powi j) = of_int k * 2 powi j"
proof -
  let ?a = "real_of_int k * 2 powi j"
  let ?E = "exponent ?a"
  have a0: "0 < ?a" using assms(1) by simp
  note b = exponent_bounds [OF a0]
  have Ej: "?E - 52 \<le> j"
  proof (rule ccontr)
    assume "\<not> ?E - 52 \<le> j"
    then have big: "j + 53 \<le> ?E" by simp
    with assms(3) b(3) have lo: "2 powi ?E \<le> ?a" by auto
    from assms(2) have "real_of_int k < 2 ^ 53" by (metis of_int_less_iff of_int_numeral of_int_power)
    then have "?a < 2 ^ 53 * 2 powi j" by simp
    also have "\<dots> = 2 powi (j + 53)"
    proof -
      have "(2 :: real) powi (j + 53) = 2 powi (53 + j)"
        by (rule arg_cong [where f = "\<lambda>n. 2 powi n"]) simp
      also have "\<dots> = 2 powi 53 * 2 powi j" by (rule pow2_split)
      finally show ?thesis by simp
    qed
    also from big have "\<dots> \<le> 2 powi ?E" by (intro power_int_increasing) auto
    finally show False using lo by simp
  qed
  define t where "t = nat (j - (?E - 52))"
  have t: "j = (?E - 52) + int t" using Ej by (simp add: t_def)
  have pj: "(2 :: real) powi j = 2 powi (?E - 52) * 2 ^ t"
  proof -
    have "(2 :: real) powi j = 2 powi ((?E - 52) + int t)"
      by (rule arg_cong [where f = "\<lambda>n. 2 powi n"]) (rule t)
    also have "\<dots> = 2 powi (?E - 52) * 2 powi (int t)" by (rule pow2_split)
    finally show ?thesis by simp
  qed
  define q :: real where "q = 2 powi (?E - 52)"
  have q0: "q \<noteq> 0" by (simp add: q_def)
  have aq: "?a = real_of_int (k * 2 ^ t) * q" using pj by (simp add: q_def mult.commute)
  have "?a / q = real_of_int (k * 2 ^ t)"
    by (subst aq) (rule nonzero_mult_div_cancel_right [OF q0])
  then have "rne (?a / q) = k * 2 ^ t" by (simp only: rne_of_int)
  then have "round_magnitude ?a = real_of_int (k * 2 ^ t) * q"
    by (simp add: round_magnitude_def Let_def q_def)
  also have "\<dots> = ?a" by (rule aq [symmetric])
  finally show ?thesis .
qed

lemma round_magnitude_form:
  assumes "0 < a"
  shows "\<exists>k j. round_magnitude a = of_int k * 2 powi j \<and> 0 \<le> k \<and> k < 2 ^ 53 \<and> - 1074 \<le> j"
proof -
  let ?E = "exponent a"
  let ?n = "rne (a / 2 powi (?E - 52))"
  note b = exponent_bounds [OF assms] and n = round_magnitude_bounds [OF assms]
  have rm: "round_magnitude a = of_int ?n * 2 powi (?E - 52)"
    by (simp add: round_magnitude_def Let_def)
  show ?thesis
  proof (cases "?n = 2 ^ 53")
    case True
    have "(2 :: real) powi (?E - 51) = 2 * 2 powi (?E - 52)" by (rule pow2_next)
    with rm True have "round_magnitude a = of_int (2 ^ 52) * 2 powi (?E - 51)" by simp
    moreover have "(0 :: int) \<le> 2 ^ 52" "(2 :: int) ^ 52 < 2 ^ 53" by simp_all
    moreover have "- 1074 \<le> ?E - 51" using b(1) by simp
    ultimately show ?thesis by blast
  next
    case False
    with n(2) have "?n < 2 ^ 53" by simp
    moreover have "- 1074 \<le> ?E - 52" using b(1) by simp
    ultimately show ?thesis using rm n(1) by blast
  qed
qed

lemma round_magnitude_idem:
  assumes "0 < a" "round_magnitude a \<noteq> 0"
  shows "round_magnitude (round_magnitude a) = round_magnitude a"
proof -
  from round_magnitude_form [OF assms(1)] obtain k j where
    f: "round_magnitude a = of_int k * 2 powi j" and k: "0 \<le> k" "k < 2 ^ 53" and j: "- 1074 \<le> j"
    by blast
  from f assms(2) k(1) have "0 < k" by (cases "k = 0") auto
  from round_magnitude_representable [OF this k(2) j] f show ?thesis by simp
qed

lemma round_magnitude_mono:
  assumes "0 < a" "a \<le> b"
  shows "round_magnitude a \<le> round_magnitude b"
proof -
  from assms have b0: "0 < b" by simp
  let ?Ea = "exponent a" and ?Eb = "exponent b"
  note ea = exponent_bounds [OF assms(1)] and eb = exponent_bounds [OF b0]
  note na = round_magnitude_bounds [OF assms(1)] and nb = round_magnitude_bounds [OF b0]
  have le: "?Ea \<le> ?Eb" using exponent_mono [OF assms] .
  show ?thesis
  proof (cases "?Ea = ?Eb")
    case True
    let ?q = "(2 :: real) powi (?Ea - 52)"
    have "a / ?q \<le> b / ?q" using assms(2) by (simp add: divide_right_mono)
    then have "rne (a / ?q) \<le> rne (b / ?q)" by (rule rne_mono)
    then have "real_of_int (rne (a / ?q)) * ?q \<le> real_of_int (rne (b / ?q)) * ?q"
      by (simp add: mult_right_mono)
    with True show ?thesis by (simp add: round_magnitude_def Let_def)
  next
    case False
    with le have lt: "?Ea < ?Eb" by simp
    let ?qa = "(2 :: real) powi (?Ea - 52)" and ?qb = "(2 :: real) powi (?Eb - 52)"
    have "real_of_int (rne (a / ?qa)) \<le> 2 ^ 53"
      using na(2) by (metis of_int_le_iff of_int_numeral of_int_power)
    then have "round_magnitude a \<le> 2 ^ 53 * ?qa"
      by (simp add: round_magnitude_def Let_def mult_right_mono)
    also have "\<dots> = 2 powi (?Ea + 1)" by (rule pow2_up [symmetric])
    also from lt have "\<dots> \<le> 2 powi ?Eb" by (intro power_int_increasing) auto
    also have "\<dots> = 2 ^ 52 * ?qb" by (rule pow2_mid)
    also have "\<dots> \<le> round_magnitude b"
    proof -
      from lt ea(1) eb(3) have "2 powi ?Eb \<le> b" by auto
      from nb(3) [OF this] have "(2 :: real) ^ 52 \<le> real_of_int (rne (b / ?qb))"
        by (metis of_int_le_iff of_int_numeral of_int_power)
      then show ?thesis by (simp add: round_magnitude_def Let_def mult_right_mono)
    qed
    finally show ?thesis .
  qed
qed

lemma binary64_pos:
  "0 < x \<Longrightarrow> binary64 x = (if 2 ^ 1024 \<le> round_magnitude x then Infinity else Num (round_magnitude x))"
  by (simp add: binary64_def Let_def)

lemma binary64_zero: "binary64 0 = Num 0"
  by (simp add: binary64_def)

lemma binary64_mono:
  assumes "0 \<le> x" "x \<le> y"
  shows "js_le (binary64 x) (binary64 y)"
proof (cases "x = 0")
  case True
  show ?thesis
  proof (cases "y = 0")
    case True
    with \<open>x = 0\<close> show ?thesis by (simp add: binary64_zero)
  next
    case False
    with assms True have "0 < y" by simp
    with round_magnitude_nonneg [OF this] True show ?thesis
      by (simp add: binary64_pos binary64_zero)
  qed
next
  case False
  with assms have x: "0 < x" and y: "0 < y" by simp_all
  from round_magnitude_mono [OF x assms(2)] show ?thesis
    by (simp add: binary64_pos x y)
qed

lemma binary64_idem:
  assumes "0 \<le> x" "binary64 x = Num y"
  shows "binary64 y = Num y"
proof (cases "x = 0")
  case True
  with assms(2) show ?thesis by (simp add: binary64_zero)
next
  case False
  with assms(1) have x: "0 < x" by simp
  from assms(2) have y: "y = round_magnitude x" and small: "\<not> 2 ^ 1024 \<le> round_magnitude x"
    by (simp_all add: binary64_pos x split: if_splits)
  show ?thesis
  proof (cases "y = 0")
    case True
    then show ?thesis by (simp add: binary64_zero)
  next
    case False
    with y round_magnitude_nonneg [OF x] have y0: "0 < y" by simp
    from False y have "round_magnitude y = y" using round_magnitude_idem [OF x] by simp
    with small y binary64_pos [OF y0] show ?thesis by simp
  qed
qed

lemma rounding_binary64: "rounding binary64"
  unfolding rounding_def using binary64_zero binary64_mono binary64_idem by blast

lemma binary64_representable:
  assumes "0 < k" "k < 2 ^ 53" "- 1074 \<le> j"
  shows "binary64 (of_int k * 2 powi j) =
     (if (2 :: real) ^ 1024 \<le> of_int k * 2 powi j then Infinity else Num (of_int k * 2 powi j))"
proof -
  have "0 < real_of_int k * 2 powi j" using assms(1) by simp
  from binary64_pos [OF this] round_magnitude_representable [OF assms] show ?thesis by simp
qed

lemma binary64_of_int:
  assumes "0 \<le> k" "k < 2 ^ 53"
  shows "binary64 (of_int k) = Num (of_int k)"
proof (cases "k = 0")
  case True
  then show ?thesis by (simp add: binary64_zero)
next
  case False
  with assms have k: "0 < k" by simp
  have "real_of_int k < 2 ^ 53" using assms(2) by (metis of_int_less_iff of_int_numeral of_int_power)
  also have "\<dots> \<le> 2 ^ 1024" by (rule power_increasing) simp_all
  finally have "\<not> (2 :: real) ^ 1024 \<le> real_of_int k" by simp
  with binary64_representable [OF k assms(2), of 0] show ?thesis by simp
qed

lemma binary64_numeral:
  "(numeral n :: int) < 2 ^ 53 \<Longrightarrow> binary64 (numeral n) = Num (numeral n)"
  using binary64_of_int [of "numeral n"] by simp

lemma binary64_double_form:
  assumes "0 < w" "binary64 w = Num w"
  shows "\<exists>k j. w = of_int k * 2 powi j \<and> 0 < k \<and> k < 2 ^ 53 \<and> - 1074 \<le> j"
proof -
  from assms have w: "w = round_magnitude w" by (simp add: binary64_pos split: if_splits)
  from round_magnitude_form [OF assms(1)] obtain k j where
    f: "round_magnitude w = of_int k * 2 powi j" and k: "0 \<le> k" "k < 2 ^ 53" and j: "- 1074 \<le> j"
    by blast
  from f w assms(1) k(1) have "0 < k" by (cases "k = 0") auto
  with f w k j show ?thesis by metis
qed

lemma binary64_doubling:
  assumes "0 \<le> w" "binary64 w = Num w"
  shows "binary64 (w + w) = (if w < 2 ^ 1023 then Num (2 * w) else Infinity)"
proof (cases "w = 0")
  case True
  then show ?thesis by (simp add: binary64_zero)
next
  case False
  with assms(1) have w0: "0 < w" by simp
  from binary64_double_form [OF w0 assms(2)] obtain k j where
    w: "w = of_int k * 2 powi j" and k: "0 < k" "k < 2 ^ 53" and j: "- 1074 \<le> j" by blast
  have "(2 :: real) powi (j + 1) = 2 powi j * 2 powi 1" by (rule pow2_split)
  then have two: "w + w = of_int k * 2 powi (j + 1)" using w by simp
  from j have j': "- 1074 \<le> j + 1" by simp
  have "(2 :: real) ^ 1024 \<le> w + w \<longleftrightarrow> \<not> w < 2 ^ 1023" by auto
  with binary64_representable [OF k j'] two show ?thesis by auto
qed

text \<open>The rounding at the distances of the example graphs.\<close>

lemma huge_w_pos: "0 \<le> huge_w" by (simp add: huge_w_def)

lemma binary64_huge: "binary64 huge_w = Num huge_w"
proof -
  have "\<not> (2 :: real) ^ 1024 \<le> 2 ^ 1023" by simp
  with binary64_representable [of 1 1023] show ?thesis by (simp add: huge_w_def)
qed

lemma binary64_huge_twice: "binary64 (huge_w + huge_w) = Infinity"
  using binary64_doubling [OF huge_w_pos binary64_huge] by (simp add: huge_w_def)

lemma tiny_w_pos: "0 \<le> tiny_w" by (simp add: tiny_w_def)

lemma binary64_tiny: "binary64 tiny_w = Num tiny_w"
proof -
  have "(2 :: real) powi (- 53) = 1 / 2 ^ 53" by (simp add: power_int_minus_divide)
  moreover have "\<not> (2 :: real) ^ 1024 \<le> 1 / 2 ^ 53" by simp
  ultimately show ?thesis using binary64_representable [of 1 "- 53"] by (simp add: tiny_w_def)
qed

lemma binary64_one_tiny: "binary64 (1 + tiny_w) = Num 1"
proof -
  let ?a = "1 + tiny_w"
  have a0: "0 < ?a" by (simp add: tiny_w_def)
  have "exponent ?a = 0"
    by (rule exponent_unique) (simp_all add: tiny_w_def)
  then have q: "(2 :: real) powi (exponent ?a - 52) = 1 / 2 ^ 52" by (simp add: power_int_minus_divide)
  have m: "?a / (1 / 2 ^ 52) = 4503599627370496 + 1 / 2" by (simp add: tiny_w_def)
  have f: "\<lfloor>4503599627370496 + 1 / 2 :: real\<rfloor> = 4503599627370496" by linarith
  have r: "rne (4503599627370496 + 1 / 2) = 4503599627370496"
    unfolding rne_def Let_def f by simp
  have "round_magnitude ?a = of_int (rne (?a / (1 / 2 ^ 52))) * (1 / 2 ^ 52)"
    unfolding round_magnitude_def Let_def q ..
  also have "\<dots> = of_int 4503599627370496 * (1 / 2 ^ 52)" unfolding m r ..
  also have "\<dots> = 1" by simp
  finally have "round_magnitude ?a = 1" .
  with binary64_pos [OF a0] show ?thesis by simp
qed

lemma huge_w_gt: "0 < huge_w" by (simp add: huge_w_def)

lemma binary64_huge_double: "binary64 (2 * huge_w) = Infinity"
  using binary64_huge_twice by simp

lemma binary64_one: "binary64 1 = Num 1"
  using binary64_of_int [of 1] by simp

subsection \<open>A graph of two nodes and one route, in double arithmetic\<close>

lemma fsp_pair_fp:
  assumes "nodes g = [na, nb]" "routes g = [r]" "joins r (node_id na) (node_id nb)"
    "node_id na \<noteq> node_id nb" "{s, t} = {node_id na, node_id nb}" "s \<noteq> t"
    "fl (distance r) = Num (distance r)"
  shows "findShortestPath_fp fl g s t =
     Some (Some \<lparr>sp_path = [s, t], sp_distance = Num (distance r)\<rparr>)"
  using assms
  by (auto simp: findShortestPath_fp_def init_state_def init_node_def set_add_def
      dijkstra_loop_fp.simps pick_min_def pick_step_def set_delete_def relax_route_fp_def
      reconstruct.simps joins_def doubleton_eq_iff)

lemma traverse_pair_fp:
  assumes "nodes g = [na, nb]" "routes g = [r]" "joins r (node_id na) (node_id nb)"
    "node_id na \<noteq> node_id nb" "{s, t} = {node_id na, node_id nb}" "s \<noteq> t"
    "fl (distance r) = Num (distance r)"
  shows "traverseEdgesInOrder_fp fl g s [r] =
     Some (Some \<lparr>path = [s, t, s], totalDistance = fl (distance r + distance r)\<rparr>)"
proof -
  from assms have j: "joins r s t" by (auto simp: joins_def doubleton_eq_iff)
  have ts: "{t, s} = {node_id na, node_id nb}" using assms(5) by auto
  have ret: "findShortestPath_fp fl g t s =
      Some (Some \<lparr>sp_path = [t, s], sp_distance = Num (distance r)\<rparr>)"
    using fsp_pair_fp [OF assms(1-4) ts, of fl] assms(6,7) by simp
  have step: "traverse_edge_fp fl g r ([s], s, Num 0, {}) =
      Some ([s, t], t, Num (distance r), {route_id r})"
    using j assms(6,7) by (auto simp: traverse_edge_fp_def connect_to_fp_def joins_def Let_def)
  show ?thesis
    using step ret gd_pair [OF assms(2) j]
    by (simp add: traverseEdgesInOrder_fp_def)
qed

lemma optimizeRoute_fp_pair:
  assumes "nodes g = [na, nb]" "node_id na = a" "node_id nb = b" "a \<noteq> b"
    and "routes g = [r]" "joins r a b" "fl (distance r) = Num (distance r)"
  shows "optimizeRoute_fp fl sh g =
     Some (Optimized (case fl (distance r + distance r) of
        Num x \<Rightarrow> \<lparr>path = [a, b, a], totalDistance = Num x\<rparr>
      | Infinity \<Rightarrow> \<lparr>path = [], totalDistance = Infinity\<rparr>
      | NaN \<Rightarrow> \<lparr>path = [], totalDistance = Infinity\<rparr>))"
proof -
  have j: "joins r (node_id na) (node_id nb)" and ne: "node_id na \<noteq> node_id nb"
    using assms by auto
  let ?T = "fl (distance r + distance r)"
  have ta: "traverseEdgesInOrder_fp fl g a [r] =
     Some (Some \<lparr>path = [a, b, a], totalDistance = ?T\<rparr>)"
    using traverse_pair_fp [OF assms(1) assms(5) j ne, of a b fl] assms by auto
  have tb: "traverseEdgesInOrder_fp fl g b [r] =
     Some (Some \<lparr>path = [b, a, b], totalDistance = ?T\<rparr>)"
    using traverse_pair_fp [OF assms(1) assms(5) j ne, of b a fl] assms by auto
  have fa: "findOptimalPathFromStart_fp fl (sh k) g a =
     Some (case ?T of Num x \<Rightarrow> Some \<lparr>path = [a, b, a], totalDistance = Num x\<rparr> | _ \<Rightarrow> None)" for k
    using ta assms(5)
    by (cases ?T) (simp_all add: findOptimalPathFromStart_fp_def getAllEdgePermutations_def keep_best_def)
  have fb: "findOptimalPathFromStart_fp fl (sh k) g b =
     Some (case ?T of Num x \<Rightarrow> Some \<lparr>path = [b, a, b], totalDistance = Num x\<rparr> | _ \<Rightarrow> None)" for k
    using tb assms(5)
    by (cases ?T) (simp_all add: findOptimalPathFromStart_fp_def getAllEdgePermutations_def keep_best_def)
  show ?thesis
    using fa fb assms(1,2,3,5)
    by (cases ?T) (simp_all add: optimizeRoute_fp_def keep_best_def)
qed

subsection \<open>The shortest-path loop and its distances\<close>

lemma js_le_refl: "a \<noteq> NaN \<Longrightarrow> js_le a a"
  by (cases a) auto

lemma js_le_trans: "js_le a b \<Longrightarrow> js_le b c \<Longrightarrow> js_le a c"
  by (cases a; cases b; cases c) auto

lemma js_le_Infinity: "js_le Infinity b \<longleftrightarrow> b = Infinity"
  by (cases b) auto

lemma js_le_not_NaN: "js_le a b \<Longrightarrow> a \<noteq> NaN \<and> b \<noteq> NaN"
  by (cases a; cases b) auto

lemma not_js_lt: "\<not> js_lt a b \<Longrightarrow> a \<noteq> NaN \<Longrightarrow> b \<noteq> NaN \<Longrightarrow> js_le b a"
  by (cases a; cases b) auto

lemma js_lt_le: "js_lt a b \<Longrightarrow> js_le a b"
  by (cases a; cases b) auto

lemma nonneg_double_not_NaN: "nonneg_double fl a \<Longrightarrow> a \<noteq> NaN"
  by (auto simp: nonneg_double_def)

lemma nonneg_double_zero: "rounding fl \<Longrightarrow> nonneg_double fl (Num 0)"
  by (simp add: nonneg_double_def rounding_def)

lemma nonneg_double_ge: "nonneg_double fl a \<Longrightarrow> js_le (Num 0) a"
  by (auto simp: nonneg_double_def)

lemma rounding_nonneg:
  assumes "rounding fl" "0 \<le> x"
  shows "nonneg_double fl (fl x)"
proof -
  from assms have "js_le (fl 0) (fl x)" unfolding rounding_def by blast
  with assms(1) have le: "js_le (Num 0) (fl x)" by (simp add: rounding_def)
  show ?thesis
  proof (cases "fl x")
    case (Num y)
    with le have "0 \<le> y" by simp
    moreover from assms Num have "fl y = Num y" unfolding rounding_def by blast
    ultimately show ?thesis using Num by (simp add: nonneg_double_def)
  next
    case Infinity
    then show ?thesis by (simp add: nonneg_double_def)
  next
    case NaN
    with le show ?thesis by simp
  qed
qed

lemma fp_add_nonneg:
  assumes "rounding fl" "nonneg_double fl a" "0 \<le> w"
  shows "nonneg_double fl (fp_add fl a (Num w))"
proof (cases a)
  case (Num x)
  with assms(2) have "0 \<le> x" by (simp add: nonneg_double_def)
  with assms(3) have "0 \<le> x + w" by simp
  from rounding_nonneg [OF assms(1) this] Num show ?thesis by simp
next
  case Infinity
  then show ?thesis by (simp add: nonneg_double_def)
next
  case NaN
  with assms(2) show ?thesis by (simp add: nonneg_double_def)
qed

lemma fp_add_mono:
  assumes "rounding fl" "nonneg_double fl a" "js_le a b" "0 \<le> w"
  shows "js_le (fp_add fl a (Num w)) (fp_add fl b (Num w))"
proof (cases a)
  case a: (Num x)
  with assms(2) have x: "0 \<le> x" by (simp add: nonneg_double_def)
  show ?thesis
  proof (cases b)
    case (Num y)
    with a assms(3) have "x \<le> y" by simp
    with x assms(4) have "0 \<le> x + w \<and> x + w \<le> y + w" by simp
    with assms(1) have "js_le (fl (x + w)) (fl (y + w))" unfolding rounding_def by blast
    with a Num show ?thesis by simp
  next
    case Infinity
    from x assms(4) have "0 \<le> x + w" by simp
    from rounding_nonneg [OF assms(1) this] have "fl (x + w) \<noteq> NaN"
      by (rule nonneg_double_not_NaN)
    with a Infinity show ?thesis by (cases "fl (x + w)") simp_all
  next
    case NaN
    with assms(3) a show ?thesis by simp
  qed
next
  case Infinity
  with assms(3) have "b = Infinity" by (simp add: js_le_Infinity)
  with Infinity show ?thesis by simp
next
  case NaN
  with assms(2) show ?thesis by (simp add: nonneg_double_def)
qed

lemma fp_add_infl:
  assumes "rounding fl" "nonneg_double fl a" "0 \<le> w"
  shows "js_le a (fp_add fl a (Num w))"
proof (cases a)
  case (Num x)
  with assms(2) have x: "0 \<le> x" "fl x = Num x" by (simp_all add: nonneg_double_def)
  with assms(3) have "0 \<le> x \<and> x \<le> x + w" by simp
  with assms(1) have "js_le (fl x) (fl (x + w))" unfolding rounding_def by blast
  with x Num show ?thesis by simp
next
  case Infinity
  then show ?thesis by simp
next
  case NaN
  with assms(2) show ?thesis by (simp add: nonneg_double_def)
qed

lemma reach_fp_nonneg:
  assumes "rounding fl" "\<forall>r\<in>set rs. 0 \<le> distance r" "reach_fp fl rs s v w"
  shows "nonneg_double fl w"
  using assms(3)
proof (induction rule: reach_fp.induct)
  case reach_fp_start
  from assms(1) show ?case by (rule nonneg_double_zero)
next
  case (reach_fp_step u w r v)
  with assms(2) have "0 \<le> distance r" by simp
  from fp_add_nonneg [OF assms(1) reach_fp_step.IH this] show ?case .
qed

lemma joins_sym: "joins r a b \<Longrightarrow> joins r b a"
  by (auto simp: joins_def)

lemma joins_other: "joins r c n \<Longrightarrow> joins r c k \<Longrightarrow> n \<noteq> c \<Longrightarrow> k \<noteq> c \<Longrightarrow> n = k"
  by (auto simp: joins_def)

lemma relax_route_fp_le:
  assumes "relax_route_fp fl c U r (d, p) = (d', p')" "n \<in> set U" "n \<noteq> c" "joins r c n"
  shows "d' n = fp_add fl (d c) (Num (distance r)) \<or>
         (d' n = d n \<and> \<not> js_lt (fp_add fl (d c) (Num (distance r))) (d n))"
  using assms by (auto simp: relax_route_fp_def joins_def Let_def split: if_splits)

lemma relax_fold_dist_fp:
  assumes "fold (relax_route_fp fl c U) rs (d, p) = (d', p')" "c \<notin> set U"
    "\<forall>n\<in>set U. d n \<noteq> NaN" "\<forall>r\<in>set rs. fp_add fl (d c) (Num (distance r)) \<noteq> NaN"
  shows "d' c = d c \<and> (\<forall>n\<in>set U. d' n \<noteq> NaN) \<and>
     (\<forall>n\<in>set U. \<forall>r\<in>set rs. joins r c n \<longrightarrow> js_le (d' n) (fp_add fl (d c) (Num (distance r)))) \<and>
     (\<forall>n\<in>set U. js_le (d' n) (d n))"
  using assms(1,4)
proof (induction rs arbitrary: d' p' rule: rev_induct)
  case Nil
  with assms(3) show ?case by (auto simp: js_le_refl)
next
  case (snoc r rs)
  obtain d1 p1 where mid: "fold (relax_route_fp fl c U) rs (d, p) = (d1, p1)"
    by (cases "fold (relax_route_fp fl c U) rs (d, p)")
  with snoc.prems have step: "relax_route_fp fl c U r (d1, p1) = (d', p')" by simp
  from snoc.prems(2) have nn: "\<forall>r\<in>set rs. fp_add fl (d c) (Num (distance r)) \<noteq> NaN"
    and nr: "fp_add fl (d c) (Num (distance r)) \<noteq> NaN" by simp_all
  from snoc.IH [OF mid nn]
  have c1: "d1 c = d c" and nan1: "\<forall>n\<in>set U. d1 n \<noteq> NaN"
    and le1: "\<forall>n\<in>set U. \<forall>r\<in>set rs. joins r c n \<longrightarrow> js_le (d1 n) (fp_add fl (d c) (Num (distance r)))"
    and dec1: "\<forall>n\<in>set U. js_le (d1 n) (d n)"
    by blast+
  let ?alt = "fp_add fl (d c) (Num (distance r))"
  from relax_route_fp_cases [OF step] show ?case
  proof (elim disjE exE conjE)
    assume same: "d' = d1" "p' = p1"
    have "js_le (d1 n) ?alt" if n: "n \<in> set U" and j: "joins r c n" for n
    proof -
      from n assms(2) have "n \<noteq> c" by auto
      from relax_route_fp_le [OF step n this j] same c1
      have "d1 n = ?alt \<or> \<not> js_lt ?alt (d1 n)" by auto
      moreover from nan1 n have "d1 n \<noteq> NaN" by simp
      ultimately show ?thesis using nr by (auto simp: js_le_refl not_js_lt)
    qed
    with same c1 nan1 le1 dec1 show ?thesis by auto
  next
    fix nb assume nb: "nb \<in> set U" "joins r c nb"
      and lt: "js_lt (fp_add fl (d1 c) (Num (distance r))) (d1 nb)"
      and d': "d' = d1(nb := fp_add fl (d1 c) (Num (distance r)))"
    from nb assms(2) have nbc: "nb \<noteq> c" by auto
    from d' c1 have d'': "d' = d1(nb := ?alt)" by simp
    from lt c1 have lt': "js_lt ?alt (d1 nb)" by simp
    have a: "d' c = d c" using d'' nbc c1 by simp
    have b: "\<forall>n\<in>set U. d' n \<noteq> NaN" using d'' nan1 nr by simp
    have c: "js_le (d' n) (fp_add fl (d c) (Num (distance r')))"
      if n: "n \<in> set U" and r': "r' \<in> set (rs @ [r])" and j: "joins r' c n" for n r'
    proof (cases "n = nb")
      case True
      show ?thesis
      proof (cases "r' = r")
        case True
        with \<open>n = nb\<close> d'' nr show ?thesis by (simp add: js_le_refl)
      next
        case False
        with r' have "r' \<in> set rs" by simp
        with le1 n j have "js_le (d1 n) (fp_add fl (d c) (Num (distance r')))" by blast
        with js_lt_le [OF lt'] True have "js_le ?alt (fp_add fl (d c) (Num (distance r')))"
          by (auto intro: js_le_trans)
        with True d'' show ?thesis by simp
      qed
    next
      case False
      then have same: "d' n = d1 n" using d'' by simp
      show ?thesis
      proof (cases "r' = r")
        case True
        from n assms(2) have "n \<noteq> c" by auto
        with joins_other [of r c n nb] j nb(2) nbc True False show ?thesis by auto
      next
        case False
        with r' have "r' \<in> set rs" by simp
        with le1 n j same show ?thesis by auto
      qed
    qed
    have e: "js_le (d' n) (d n)" if n: "n \<in> set U" for n
    proof (cases "n = nb")
      case True
      from dec1 n have "js_le (d1 n) (d n)" by simp
      with js_lt_le [OF lt'] True have "js_le ?alt (d n)" by (auto intro: js_le_trans)
      with True d'' show ?thesis by simp
    next
      case False
      then have "d' n = d1 n" using d'' by simp
      with dec1 n show ?thesis by auto
    qed
    from a b c e show ?thesis by blast
  qed
qed

lemma dist_inv_fp_endpoint:
  assumes "dist_inv_fp fl rs s d U V" "r \<in> set rs" "joins r a b"
  shows "a \<in> V \<union> set U" "b \<in> V \<union> set U" "0 \<le> distance r"
  using assms by (auto simp: dist_inv_fp_def joins_def)

lemma dist_inv_fp_weights: "dist_inv_fp fl rs s d U V \<Longrightarrow> \<forall>r\<in>set rs. 0 \<le> distance r"
  by (auto simp: dist_inv_fp_def)

lemma dist_inv_fp_tentative:
  assumes "dist_inv_fp fl rs s d U V" "rounding fl" "u \<in> V \<union> set U"
  shows "nonneg_double fl (d u)"
proof -
  from assms(1,3) have "d u = Infinity \<or> (\<exists>x. d u = Num x \<and> reach_fp fl rs s u (Num x))"
    unfolding dist_inv_fp_def by blast
  then show ?thesis
  proof
    assume "d u = Infinity"
    then show ?thesis by (simp add: nonneg_double_def)
  next
    assume "\<exists>x. d u = Num x \<and> reach_fp fl rs s u (Num x)"
    then obtain x where x: "d u = Num x" "reach_fp fl rs s u (Num x)" by blast
    from reach_fp_nonneg [OF assms(2) dist_inv_fp_weights [OF assms(1)] x(2)] x(1)
    show ?thesis by simp
  qed
qed

lemma unvisited_lower_bound_fp:
  assumes fl: "rounding fl" and inv: "dist_inv_fp fl rs s d U V" and sV: "s \<in> V"
    and cU: "c \<in> set U"
    and least: "\<forall>u\<in>set U. \<not> js_lt (d u) (d c)"
    and reach: "reach_fp fl rs s v w" and vU: "v \<in> set U"
  shows "js_le (d c) w"
  using reach vU
proof (induction rule: reach_fp.induct)
  case reach_fp_start
  with inv sV show ?case by (auto simp: dist_inv_fp_def)
next
  case (reach_fp_step u w r v)
  note ends = dist_inv_fp_endpoint [OF inv reach_fp_step.hyps(2,3)]
  note wn = reach_fp_nonneg [OF fl dist_inv_fp_weights [OF inv] reach_fp_step.hyps(1)]
  show ?case
  proof (cases "u \<in> V")
    case True
    with inv obtain x where x: "d u = Num x" "reach_fp fl rs s u (Num x)"
      "\<forall>w. reach_fp fl rs s u w \<longrightarrow> js_le (Num x) w"
      unfolding dist_inv_fp_def by blast
    with reach_fp_step.hyps(1) have xw: "js_le (Num x) w" by simp
    note xn = reach_fp_nonneg [OF fl dist_inv_fp_weights [OF inv] x(2)]
    from inv True reach_fp_step.prems reach_fp_step.hyps(2,3)
    have "js_le (d v) (fp_add fl (d u) (Num (distance r)))"
      unfolding dist_inv_fp_def by blast
    with x(1) have a: "js_le (d v) (fp_add fl (Num x) (Num (distance r)))" by simp
    from fp_add_mono [OF fl xn xw ends(3)]
    have b: "js_le (fp_add fl (Num x) (Num (distance r))) (fp_add fl w (Num (distance r)))" .
    have "d v \<noteq> NaN" "d c \<noteq> NaN"
      using dist_inv_fp_tentative [OF inv fl] reach_fp_step.prems cU
      by (auto dest: nonneg_double_not_NaN)
    with least reach_fp_step.prems have "js_le (d c) (d v)" by (auto intro: not_js_lt)
    with a b show ?thesis by (blast intro: js_le_trans)
  next
    case False
    with ends(1) have "u \<in> set U" by simp
    from reach_fp_step.IH [OF this] fp_add_infl [OF fl wn ends(3)]
    show ?thesis by (blast intro: js_le_trans)
  qed
qed

lemma picked_minimal_fp:
  assumes fl: "rounding fl" and inv: "dist_inv_fp fl rs s d U V"
    and pick: "fst (pick_min d U) = Some c"
  shows "\<exists>m. d c = Num m \<and> reach_fp fl rs s c (Num m) \<and>
     (\<forall>w. reach_fp fl rs s c w \<longrightarrow> js_le (Num m) w)"
proof -
  from pick_min_Some [OF pick] have cU: "c \<in> set U" and fin: "js_lt (d c) Infinity"
    and least: "\<forall>u\<in>set U. \<not> js_lt (d u) (d c)" by auto
  from fin obtain m where m: "d c = Num m" by (auto simp: js_lt_Infinity)
  from inv cU m have rc: "reach_fp fl rs s c (Num m)" by (auto simp: dist_inv_fp_def)
  have "js_le (Num m) w" if w: "reach_fp fl rs s c w" for w
  proof (cases "s \<in> V")
    case True
    from unvisited_lower_bound_fp [OF fl inv True cU least w cU] m show ?thesis by simp
  next
    case False
    with inv have "\<forall>u\<in>set U. u \<noteq> s \<longrightarrow> d u = Infinity" "s \<in> set U \<longrightarrow> d s = Num 0"
      by (auto simp: dist_inv_fp_def)
    with cU m have "c = s" "m = 0" by auto
    with nonneg_double_ge [OF reach_fp_nonneg [OF fl dist_inv_fp_weights [OF inv] w]]
    show ?thesis by simp
  qed
  with m rc show ?thesis by blast
qed

lemma dist_inv_fp_step:
  assumes fl: "rounding fl" and inv: "dist_inv_fp fl rs s d U V"
    and pick: "fst (pick_min d U) = Some c"
    and fold: "fold (relax_route_fp fl c (set_delete U c)) rs (d, p) = (d', p')"
  shows "dist_inv_fp fl rs s d' (set_delete U c) (insert c V)"
proof -
  let ?U' = "set_delete U c" and ?V' = "insert c V"
  have U': "set ?U' = set U - {c}" by (simp add: set_delete_def)
  then have cU': "c \<notin> set ?U'" by simp
  from pick_min_Some [OF pick] have cU: "c \<in> set U" and fin: "js_lt (d c) Infinity" by auto
  from picked_minimal_fp [OF fl inv pick] obtain m where m: "d c = Num m"
    "reach_fp fl rs s c (Num m)" "\<forall>w. reach_fp fl rs s c w \<longrightarrow> js_le (Num m) w" by blast
  note wts = dist_inv_fp_weights [OF inv]
  note mn = reach_fp_nonneg [OF fl wts m(2)]
  from inv have disj: "V \<inter> set U = {}"
    and ends: "\<forall>r\<in>set rs. startNodeId r \<in> V \<union> set U \<and> endNodeId r \<in> V \<union> set U \<and> 0 \<le> distance r"
    and settled: "\<forall>v\<in>V. \<exists>x. d v = Num x \<and> reach_fp fl rs s v (Num x) \<and>
        (\<forall>w. reach_fp fl rs s v w \<longrightarrow> js_le (Num x) w)"
    and tent: "\<forall>u\<in>set U. d u = Infinity \<or> (\<exists>x. d u = Num x \<and> reach_fp fl rs s u (Num x))"
    and rel: "\<forall>v\<in>V. \<forall>u\<in>set U. \<forall>r\<in>set rs. joins r v u \<longrightarrow>
         js_le (d u) (fp_add fl (d v) (Num (distance r)))"
    and start: "s \<in> V \<or> (V = {} \<and> (\<forall>u\<in>set U. u \<noteq> s \<longrightarrow> d u = Infinity) \<and> (s \<in> set U \<longrightarrow> d s = Num 0))"
    by (auto simp: dist_inv_fp_def)
  have nonan: "\<forall>n\<in>set ?U'. d n \<noteq> NaN" using tent U' by auto
  have altn: "\<forall>r\<in>set rs. fp_add fl (d c) (Num (distance r)) \<noteq> NaN"
  proof
    fix r assume "r \<in> set rs"
    with wts have "0 \<le> distance r" by simp
    from fp_add_nonneg [OF fl mn this] m(1)
    show "fp_add fl (d c) (Num (distance r)) \<noteq> NaN" by (auto dest: nonneg_double_not_NaN)
  qed
  from relax_fold_frame_fp [OF fold] cU'
  have frame: "\<And>n. n \<notin> set ?U' \<Longrightarrow> d' n = d n"
    and upd: "\<And>n. n \<in> set ?U' \<Longrightarrow> d' n = d n \<or>
            (\<exists>r\<in>set rs. joins r c n \<and> d' n = fp_add fl (d c) (Num (distance r)))"
    by auto
  from relax_fold_dist_fp [OF fold cU' nonan altn]
  have le: "\<And>n r. n \<in> set ?U' \<Longrightarrow> r \<in> set rs \<Longrightarrow> joins r c n \<Longrightarrow>
              js_le (d' n) (fp_add fl (d c) (Num (distance r)))"
    and dec: "\<And>n. n \<in> set ?U' \<Longrightarrow> js_le (d' n) (d n)"
    by blast+
  have i1: "?V' \<inter> set ?U' = {}" using disj U' by auto
  have i2: "\<forall>r\<in>set rs. startNodeId r \<in> ?V' \<union> set ?U' \<and> endNodeId r \<in> ?V' \<union> set ?U' \<and> 0 \<le> distance r"
    using ends U' by auto
  have i3: "\<forall>v\<in>?V'. \<exists>x. d' v = Num x \<and> reach_fp fl rs s v (Num x) \<and>
        (\<forall>w. reach_fp fl rs s v w \<longrightarrow> js_le (Num x) w)"
  proof
    fix v assume v: "v \<in> ?V'"
    with i1 have "v \<notin> set ?U'" by auto
    from frame [OF this] have same: "d' v = d v" .
    show "\<exists>x. d' v = Num x \<and> reach_fp fl rs s v (Num x) \<and>
        (\<forall>w. reach_fp fl rs s v w \<longrightarrow> js_le (Num x) w)"
    proof (cases "v = c")
      case True
      with same m show ?thesis by auto
    next
      case False
      with v settled same show ?thesis by auto
    qed
  qed
  have i4: "\<forall>u\<in>set ?U'. d' u = Infinity \<or> (\<exists>x. d' u = Num x \<and> reach_fp fl rs s u (Num x))"
  proof
    fix u assume u: "u \<in> set ?U'"
    from upd [OF u] show "d' u = Infinity \<or> (\<exists>x. d' u = Num x \<and> reach_fp fl rs s u (Num x))"
    proof
      assume "d' u = d u"
      with tent u U' show ?thesis by auto
    next
      assume "\<exists>r\<in>set rs. joins r c u \<and> d' u = fp_add fl (d c) (Num (distance r))"
      then obtain r where r: "r \<in> set rs" "joins r c u" "d' u = fp_add fl (d c) (Num (distance r))"
        by blast
      from reach_fp_step [OF m(2) r(1,2)] r(3) m(1)
      have re: "reach_fp fl rs s u (d' u)" by simp
      from altn r(1,3) have "d' u \<noteq> NaN" by simp
      with re show ?thesis by (cases "d' u") auto
    qed
  qed
  have i5: "\<forall>v\<in>?V'. \<forall>u\<in>set ?U'. \<forall>r\<in>set rs. joins r v u \<longrightarrow>
         js_le (d' u) (fp_add fl (d' v) (Num (distance r)))"
  proof (intro ballI impI)
    fix v u r assume v: "v \<in> ?V'" and u: "u \<in> set ?U'" and r: "r \<in> set rs" and j: "joins r v u"
    from v i1 have "v \<notin> set ?U'" by auto
    from frame [OF this] have same: "d' v = d v" .
    show "js_le (d' u) (fp_add fl (d' v) (Num (distance r)))"
    proof (cases "v = c")
      case True
      from le [OF u r] j True same show ?thesis by simp
    next
      case False
      with v have vV: "v \<in> V" by simp
      from u U' have uU: "u \<in> set U" by simp
      from rel vV uU r j have "js_le (d u) (fp_add fl (d v) (Num (distance r)))" by blast
      with dec [OF u] same show ?thesis by (auto intro: js_le_trans)
    qed
  qed
  have i6: "s \<in> ?V'"
  proof (cases "s \<in> V")
    case True
    then show ?thesis by simp
  next
    case False
    with start have "\<forall>u\<in>set U. u \<noteq> s \<longrightarrow> d u = Infinity" by simp
    with cU m(1) have "c = s" by auto
    then show ?thesis by simp
  qed
  from i1 i2 i3 i4 i5 i6 show ?thesis unfolding dist_inv_fp_def by blast
qed

lemma exit_unreachable_fp:
  assumes fl: "rounding fl" and inv: "dist_inv_fp fl rs s d U V"
    and none: "\<forall>u\<in>set U. \<not> js_lt (d u) Infinity"
    and e: "e \<notin> V" "e \<noteq> s"
  shows "\<not> reach_fp fl rs s e (Num x)"
proof
  assume re: "reach_fp fl rs s e (Num x)"
  note wts = dist_inv_fp_weights [OF inv]
  show False
  proof (cases "s \<in> V")
    case True
    have "v \<in> V \<or> w' = Infinity" if "reach_fp fl rs s v w'" for v w'
      using that
    proof (induction rule: reach_fp.induct)
      case reach_fp_start
      from True show ?case by simp
    next
      case (reach_fp_step u w r v)
      note ends = dist_inv_fp_endpoint [OF inv reach_fp_step.hyps(2,3)]
      show ?case
      proof (cases "w = Infinity")
        case True
        then show ?thesis by simp
      next
        case False
        with reach_fp_step.IH have uV: "u \<in> V" by simp
        show ?thesis
        proof (cases "v \<in> V")
          case True
          then show ?thesis by simp
        next
          case False
          with ends(2) have vU: "v \<in> set U" by simp
          from inv vU have "d v = Infinity \<or> (\<exists>y. d v = Num y)" unfolding dist_inv_fp_def by blast
          with none vU have dv: "d v = Infinity" by auto
          from inv uV obtain y where y: "d u = Num y" "reach_fp fl rs s u (Num y)"
            "\<forall>w. reach_fp fl rs s u w \<longrightarrow> js_le (Num y) w"
            unfolding dist_inv_fp_def by blast
          from inv uV vU reach_fp_step.hyps(2,3)
          have "js_le (d v) (fp_add fl (d u) (Num (distance r)))" unfolding dist_inv_fp_def by blast
          with dv y(1) have a: "fp_add fl (Num y) (Num (distance r)) = Infinity"
            by (simp add: js_le_Infinity)
          from y(3) reach_fp_step.hyps(1) have "js_le (Num y) w" by simp
          from fp_add_mono [OF fl reach_fp_nonneg [OF fl wts y(2)] this ends(3)] a
          show ?thesis by (simp add: js_le_Infinity)
        qed
      qed
    qed
    from this [OF re] e(1) show False by simp
  next
    case False
    with inv have "s \<in> set U \<longrightarrow> d s = Num 0" and V: "V = {}" by (auto simp: dist_inv_fp_def)
    with none have sU: "s \<notin> set U" by auto
    have "v = s" if "reach_fp fl rs s v w'" for v w'
      using that
    proof (induction rule: reach_fp.induct)
      case reach_fp_start
      show ?case by simp
    next
      case (reach_fp_step u w r v)
      from dist_inv_fp_endpoint [OF inv reach_fp_step.hyps(2,3)] reach_fp_step.IH V sU
      show ?case by simp
    qed
    from this [OF re] e(2) show False by simp
  qed
qed

lemma dijkstra_loop_fp_dist:
  assumes "rounding fl" "dist_inv_fp fl rs s d U V" "e \<notin> V" "e \<noteq> s"
  shows "(dijkstra_loop_fp fl rs e d p U = Some None \<longrightarrow> \<not> (\<exists>x. reach_fp fl rs s e (Num x))) \<and>
         (\<forall>r. dijkstra_loop_fp fl rs e d p U = Some (Some r) \<longrightarrow>
            (\<exists>x. sp_distance r = Num x \<and> reach_fp fl rs s e (Num x) \<and>
                 (\<forall>w. reach_fp fl rs s e w \<longrightarrow> js_le (Num x) w)))"
  using assms
proof (induction fl rs e d p U arbitrary: V rule: dijkstra_loop_fp.induct)
  case (1 fl rs e d p U)
  note fl = "1.prems"(1) and inv = "1.prems"(2) and e = "1.prems"(3,4)
  show ?case
  proof (cases "U = []")
    case True
    then have r: "dijkstra_loop_fp fl rs e d p U = Some None"
      by (subst dijkstra_loop_fp.simps) simp
    from exit_unreachable_fp [OF fl inv _ e] True
    have "\<not> (\<exists>x. reach_fp fl rs s e (Num x))" by simp
    with r show ?thesis by simp
  next
    case ne: False
    show ?thesis
    proof (cases "fst (pick_min d U)")
      case None
      with ne have r: "dijkstra_loop_fp fl rs e d p U = Some None"
        by (subst dijkstra_loop_fp.simps) simp
      from exit_unreachable_fp [OF fl inv pick_min_None [OF None] e]
      have "\<not> (\<exists>x. reach_fp fl rs s e (Num x))" by simp
      with r show ?thesis by simp
    next
      case (Some c)
      from picked_minimal_fp [OF fl inv Some] obtain m where m: "d c = Num m"
        "reach_fp fl rs s c (Num m)" "\<forall>w. reach_fp fl rs s c w \<longrightarrow> js_le (Num m) w" by blast
      show ?thesis
      proof (cases "c = e")
        case True
        have "dijkstra_loop_fp fl rs e d p U =
              map_option (\<lambda>pth. Some \<lparr>sp_path = pth, sp_distance = d e\<rparr>) (reconstruct p e [])"
          using ne Some m(1) True by (subst dijkstra_loop_fp.simps) simp
        with m True show ?thesis by auto
      next
        case False
        obtain d' p' where f: "fold (relax_route_fp fl c (set_delete U c)) rs (d, p) = (d', p')"
          by (cases "fold (relax_route_fp fl c (set_delete U c)) rs (d, p)")
        have eq: "dijkstra_loop_fp fl rs e d p U = dijkstra_loop_fp fl rs e d' p' (set_delete U c)"
          using ne Some m(1) False f by (subst dijkstra_loop_fp.simps) simp
        from dist_inv_fp_step [OF fl inv Some f]
        have inv': "dist_inv_fp fl rs s d' (set_delete U c) (insert c V)" .
        moreover from m(1) have "d c \<noteq> Infinity" by simp
        moreover from e False have "e \<notin> insert c V" by auto
        ultimately show ?thesis
          using "1.IH" [OF ne Some _ refl False f [symmetric] fl] eq e(2) by simp
      qed
    qed
  qed
qed

lemma init_dist_inv_fp:
  assumes i: "init_state ns = (d, p, U)"
    and wf: "\<forall>r\<in>set rs. startNodeId r \<in> node_id ` set ns \<and> endNodeId r \<in> node_id ` set ns \<and>
               0 \<le> distance r"
  shows "dist_inv_fp fl rs s (d(s := Num 0)) U {}"
proof -
  note props = init_state_props [OF i]
  have "(d(s := Num 0)) u = Infinity \<or>
        (\<exists>x. (d(s := Num 0)) u = Num x \<and> reach_fp fl rs s u (Num x))"
    if "u \<in> set U" for u
    using props(2) that by (cases "u = s") (auto intro: reach_fp_start)
  moreover have "\<forall>u\<in>set U. u \<noteq> s \<longrightarrow> (d(s := Num 0)) u = Infinity" using props(2) by simp
  ultimately show ?thesis using wf props(1) unfolding dist_inv_fp_def by auto
qed

lemma findShortestPath_fp_dist:
  assumes "rounding fl" "well_formed g"
  shows "(findShortestPath_fp fl g s t = Some None \<longleftrightarrow>
            \<not> (\<exists>x. reach_fp fl (routes g) s t (Num x))) \<and>
         (\<forall>r. findShortestPath_fp fl g s t = Some (Some r) \<longrightarrow>
            (\<exists>x. sp_distance r = Num x \<and> reach_fp fl (routes g) s t (Num x) \<and>
                 (\<forall>w. reach_fp fl (routes g) s t w \<longrightarrow> js_le (Num x) w)))"
proof (cases "s = t")
  case True
  have nn: "\<forall>r\<in>set (routes g). 0 \<le> distance r" using assms(2) by (auto simp: well_formed_def)
  have "findShortestPath_fp fl g s t = Some (Some \<lparr>sp_path = [s], sp_distance = Num 0\<rparr>)"
    using True by (simp add: findShortestPath_fp_def)
  moreover have "reach_fp fl (routes g) s t (Num 0)" using True by (auto intro: reach_fp_start)
  moreover have "\<forall>w. reach_fp fl (routes g) s t w \<longrightarrow> js_le (Num 0) w"
    using reach_fp_nonneg [OF assms(1) nn] nonneg_double_ge by blast
  ultimately show ?thesis by auto
next
  case False
  obtain d p U where i: "init_state (nodes g) = (d, p, U)"
    by (cases "init_state (nodes g)") auto
  have eq: "findShortestPath_fp fl g s t = dijkstra_loop_fp fl (routes g) t (d(s := Num 0)) p U"
    using False i by (simp add: findShortestPath_fp_def)
  from assms(2) have "\<forall>r\<in>set (routes g). startNodeId r \<in> node_id ` set (nodes g) \<and>
      endNodeId r \<in> node_id ` set (nodes g) \<and> 0 \<le> distance r"
    by (simp add: well_formed_def)
  from init_dist_inv_fp [OF i this, of fl s]
  have inv: "dist_inv_fp fl (routes g) s (d(s := Num 0)) U {}" .
  from False have ts: "t \<noteq> s" by simp
  from dijkstra_loop_fp_dist [OF assms(1) inv _ ts, of p]
  have a: "findShortestPath_fp fl g s t = Some None \<longrightarrow>
             \<not> (\<exists>x. reach_fp fl (routes g) s t (Num x))"
    and b: "\<forall>r. findShortestPath_fp fl g s t = Some (Some r) \<longrightarrow>
            (\<exists>x. sp_distance r = Num x \<and> reach_fp fl (routes g) s t (Num x) \<and>
                 (\<forall>w. reach_fp fl (routes g) s t w \<longrightarrow> js_le (Num x) w))"
    unfolding eq by auto
  from findShortestPath_fp_returns [of fl g s t] obtain res where
    res: "findShortestPath_fp fl g s t = Some res" by blast
  have "findShortestPath_fp fl g s t = Some None"
    if "\<not> (\<exists>x. reach_fp fl (routes g) s t (Num x))"
  proof (cases res)
    case None
    with res show ?thesis by simp
  next
    case (Some r)
    with res b that show ?thesis by blast
  qed
  with a b show ?thesis by blast
qed

subsection \<open>The walk builder and its total distance\<close>

lemma nonneg_double_refl: "nonneg_double fl a \<Longrightarrow> js_le a a"
  by (auto simp: nonneg_double_def)

lemma append_hops_fp_result:
  "\<exists>pth' tot'. append_hops_fp fl g xs (pth, tot) = (pth @ pth', tot') \<and>
     (rounding fl \<and> (\<forall>r\<in>set (routes g). 0 \<le> distance r) \<and> nonneg_double fl tot \<longrightarrow>
        js_le tot tot' \<and> nonneg_double fl tot')"
proof (induction xs arbitrary: pth tot)
  case Nil
  have "append_hops_fp fl g [] (pth, tot) = (pth @ [], tot)" by simp
  moreover have "nonneg_double fl tot \<longrightarrow> js_le tot tot"
    by (simp add: nonneg_double_refl)
  ultimately show ?case by blast
next
  case (Cons a ys)
  show ?case
  proof (cases ys)
    case Nil
    then have "append_hops_fp fl g (a # ys) (pth, tot) = (pth @ [], tot)" by simp
    moreover have "nonneg_double fl tot \<longrightarrow> js_le tot tot"
      by (simp add: nonneg_double_refl)
    ultimately show ?thesis by blast
  next
    case ys: (Cons b rest)
    let ?t = "fp_add fl tot (Num (getDistanceBetweenNodes g a b))"
    from Cons.IH [of "pth @ [b]" ?t] obtain pth2 tot2 where
      s: "append_hops_fp fl g ys (pth @ [b], ?t) = ((pth @ [b]) @ pth2, tot2)"
      and b: "rounding fl \<and> (\<forall>r\<in>set (routes g). 0 \<le> distance r) \<and> nonneg_double fl ?t \<longrightarrow>
          js_le ?t tot2 \<and> nonneg_double fl tot2" by blast
    have "js_le tot tot2 \<and> nonneg_double fl tot2"
      if h: "rounding fl" "\<forall>r\<in>set (routes g). 0 \<le> distance r" "nonneg_double fl tot"
    proof -
      from getDistanceBetweenNodes_nonneg [OF h(2)] have w: "0 \<le> getDistanceBetweenNodes g a b" .
      from fp_add_nonneg [OF h(1,3) w] b h have "js_le ?t tot2" "nonneg_double fl tot2" by auto
      with fp_add_infl [OF h(1,3) w] show ?thesis by (blast intro: js_le_trans)
    qed
    moreover have "append_hops_fp fl g (a # ys) (pth, tot) = (pth @ ([b] @ pth2), tot2)"
      using s ys by simp
    ultimately show ?thesis by blast
  qed
qed

lemma connect_to_fp_result:
  "\<exists>pth' cur' tot'. connect_to_fp fl g edge (pth, cur, tot) = Some (pth @ pth', cur', tot') \<and>
     (rounding fl \<and> (\<forall>r\<in>set (routes g). 0 \<le> distance r) \<and> nonneg_double fl tot \<longrightarrow>
        js_le tot tot' \<and> nonneg_double fl tot')"
proof -
  have same: "nonneg_double fl tot \<longrightarrow> js_le tot tot \<and> nonneg_double fl tot"
    by (simp add: nonneg_double_refl)
  show ?thesis
  proof (cases "cur \<noteq> startNodeId edge \<and> cur \<noteq> endNodeId edge")
    case False
    then have "connect_to_fp fl g edge (pth, cur, tot) = Some (pth @ [], cur, tot)"
      by (auto simp: connect_to_fp_def)
    with same show ?thesis by blast
  next
    case True
    obtain ps where ps: "findShortestPath_fp fl g cur (startNodeId edge) = Some ps"
      using findShortestPath_fp_returns by blast
    obtain pe where pe: "findShortestPath_fp fl g cur (endNodeId edge) = Some pe"
      using findShortestPath_fp_returns by blast
    show ?thesis
    proof (cases "choose_path ps pe")
      case None
      with True ps pe have "connect_to_fp fl g edge (pth, cur, tot) = Some (pth @ [], cur, tot)"
        by (simp add: connect_to_fp_def)
      with same show ?thesis by blast
    next
      case (Some cp)
      show ?thesis
      proof (cases "length (sp_path cp) > 1")
        case False
        with Some True ps pe
        have "connect_to_fp fl g edge (pth, cur, tot) = Some (pth @ [], cur, tot)"
          by (simp add: connect_to_fp_def)
        with same show ?thesis by blast
      next
        case long: True
        from append_hops_fp_result [of fl g "sp_path cp" pth tot] obtain pth2 tot2 where
          a: "append_hops_fp fl g (sp_path cp) (pth, tot) = (pth @ pth2, tot2)"
          and b: "rounding fl \<and> (\<forall>r\<in>set (routes g). 0 \<le> distance r) \<and> nonneg_double fl tot \<longrightarrow>
            js_le tot tot2 \<and> nonneg_double fl tot2" by blast
        from long Some True ps pe a
        have "connect_to_fp fl g edge (pth, cur, tot) = Some (pth @ pth2, last (sp_path cp), tot2)"
          by (simp add: connect_to_fp_def)
        with b show ?thesis by blast
      qed
    qed
  qed
qed

lemma traverse_edge_fp_result:
  "\<exists>pth' cur' tot' cov'.
     traverse_edge_fp fl g edge (pth, cur, tot, cov) = Some (pth @ pth', cur', tot', cov') \<and>
     (rounding fl \<and> (\<forall>r\<in>set (routes g). 0 \<le> distance r) \<and> 0 \<le> distance edge \<and>
      nonneg_double fl tot \<longrightarrow>
        nonneg_double fl tot' \<and>
        (if route_id edge \<in> cov then tot' = tot \<and> cov' = cov
         else js_le (fp_add fl tot (Num (distance edge))) tot' \<and>
              cov' = insert (route_id edge) cov))"
proof (cases "route_id edge \<in> cov")
  case True
  then have "traverse_edge_fp fl g edge (pth, cur, tot, cov) = Some (pth @ [], cur, tot, cov)"
    by (simp add: traverse_edge_fp_def)
  with True show ?thesis by auto
next
  case False
  from connect_to_fp_result [of fl g edge pth cur tot] obtain pth1 cur1 tot1 where
    c: "connect_to_fp fl g edge (pth, cur, tot) = Some (pth @ pth1, cur1, tot1)"
    and e: "rounding fl \<and> (\<forall>r\<in>set (routes g). 0 \<le> distance r) \<and> nonneg_double fl tot \<longrightarrow>
        js_le tot tot1 \<and> nonneg_double fl tot1" by blast
  let ?cur2 = "if cur1 = startNodeId edge then endNodeId edge else startNodeId edge"
  let ?t = "fp_add fl tot1 (Num (distance edge))"
  from False c have r: "traverse_edge_fp fl g edge (pth, cur, tot, cov) =
     Some (pth @ (pth1 @ [?cur2]), ?cur2, ?t, insert (route_id edge) cov)"
    by (simp add: traverse_edge_fp_def Let_def)
  have "nonneg_double fl ?t \<and> js_le (fp_add fl tot (Num (distance edge))) ?t"
    if h: "rounding fl" "\<forall>r\<in>set (routes g). 0 \<le> distance r" "0 \<le> distance edge"
      "nonneg_double fl tot"
  proof -
    from e h have t1: "js_le tot tot1" "nonneg_double fl tot1" by auto
    from fp_add_nonneg [OF h(1) t1(2) h(3)] fp_add_mono [OF h(1,4) t1(1) h(3)]
    show ?thesis by simp
  qed
  with r False show ?thesis by auto
qed

lemma traverse_loop_fp_result:
  "\<exists>pth' cur' tot' cov'.
     traverse_loop_fp fl g es (pth, cur, tot, cov) = Some (pth @ pth', cur', tot', cov') \<and>
     (rounding fl \<and> (\<forall>r\<in>set (routes g). 0 \<le> distance r) \<and> (\<forall>e\<in>set es. 0 \<le> distance e) \<and>
      nonneg_double fl tot \<longrightarrow>
        nonneg_double fl tot' \<and>
        (\<forall>low. nonneg_double fl low \<and> js_le low tot \<longrightarrow>
           js_le (fold (\<lambda>e t. fp_add fl t (Num (distance e))) (distinct_edges cov es) low) tot'))"
proof (induction es arbitrary: pth cur tot cov)
  case Nil
  have "traverse_loop_fp fl g [] (pth, cur, tot, cov) = Some (pth @ [], cur, tot, cov)" by simp
  then show ?case
    by (intro exI [of _ "[]"] exI [of _ cur] exI [of _ tot] exI [of _ cov]) simp
next
  case (Cons e es)
  let ?add = "\<lambda>e t. fp_add fl t (Num (distance e))"
  from traverse_edge_fp_result [of fl g e pth cur tot cov] obtain pth1 cur1 tot1 cov1 where
    s: "traverse_edge_fp fl g e (pth, cur, tot, cov) = Some (pth @ pth1, cur1, tot1, cov1)"
    and b: "rounding fl \<and> (\<forall>r\<in>set (routes g). 0 \<le> distance r) \<and> 0 \<le> distance e \<and>
      nonneg_double fl tot \<longrightarrow>
        nonneg_double fl tot1 \<and>
        (if route_id e \<in> cov then tot1 = tot \<and> cov1 = cov
         else js_le (fp_add fl tot (Num (distance e))) tot1 \<and> cov1 = insert (route_id e) cov)"
    by blast
  from Cons.IH [of "pth @ pth1" cur1 tot1 cov1] obtain pth2 cur2 tot2 cov2 where
    l: "traverse_loop_fp fl g es (pth @ pth1, cur1, tot1, cov1) =
          Some ((pth @ pth1) @ pth2, cur2, tot2, cov2)"
    and b2: "rounding fl \<and> (\<forall>r\<in>set (routes g). 0 \<le> distance r) \<and> (\<forall>e\<in>set es. 0 \<le> distance e) \<and>
      nonneg_double fl tot1 \<longrightarrow>
        nonneg_double fl tot2 \<and>
        (\<forall>low. nonneg_double fl low \<and> js_le low tot1 \<longrightarrow>
           js_le (fold ?add (distinct_edges cov1 es) low) tot2)" by blast
  from s l have r: "traverse_loop_fp fl g (e # es) (pth, cur, tot, cov) =
      Some (pth @ (pth1 @ pth2), cur2, tot2, cov2)"
    by simp
  have "nonneg_double fl tot2 \<and>
        (\<forall>low. nonneg_double fl low \<and> js_le low tot \<longrightarrow>
           js_le (fold ?add (distinct_edges cov (e # es)) low) tot2)"
    if h: "rounding fl" "\<forall>r\<in>set (routes g). 0 \<le> distance r" "\<forall>e\<in>set (e # es). 0 \<le> distance e"
      "nonneg_double fl tot"
  proof -
    from h(3) have e0: "0 \<le> distance e" and es0: "\<forall>e\<in>set es. 0 \<le> distance e" by simp_all
    from b h(1,2,4) e0 have t1: "nonneg_double fl tot1"
      and c1: "if route_id e \<in> cov then tot1 = tot \<and> cov1 = cov
         else js_le (fp_add fl tot (Num (distance e))) tot1 \<and> cov1 = insert (route_id e) cov"
      by blast+
    from b2 h(1,2) es0 t1 have t2: "nonneg_double fl tot2"
      and c2: "\<And>low. nonneg_double fl low \<Longrightarrow> js_le low tot1 \<Longrightarrow>
           js_le (fold ?add (distinct_edges cov1 es) low) tot2" by blast+
    have "js_le (fold ?add (distinct_edges cov (e # es)) low) tot2"
      if low: "nonneg_double fl low" "js_le low tot" for low
    proof (cases "route_id e \<in> cov")
      case True
      with c1 have "tot1 = tot" "cov1 = cov" by simp_all
      with c2 [OF low(1)] low(2) True show ?thesis by simp
    next
      case False
      with c1 have le: "js_le (fp_add fl tot (Num (distance e))) tot1"
        and cov1: "cov1 = insert (route_id e) cov" by simp_all
      from fp_add_mono [OF h(1) low e0] le
      have "js_le (fp_add fl low (Num (distance e))) tot1" by (blast intro: js_le_trans)
      from c2 [OF fp_add_nonneg [OF h(1) low(1) e0] this] False cov1 show ?thesis by simp
    qed
    with t2 show ?thesis by blast
  qed
  with r show ?case by blast
qed

lemma traverseEdgesInOrder_fp_result:
  "\<exists>pth tot. traverseEdgesInOrder_fp fl g s es =
       Some (Some \<lparr>path = s # pth, totalDistance = tot\<rparr>) \<and>
     (rounding fl \<and> (\<forall>r\<in>set (routes g). 0 \<le> distance r) \<and> (\<forall>e\<in>set es. 0 \<le> distance e) \<longrightarrow>
        js_le (double_sum fl (distinct_edges {} es)) tot)"
proof -
  let ?add = "\<lambda>e t. fp_add fl t (Num (distance e))"
  from traverse_loop_fp_result [of fl g es "[s]" s "Num 0" "{}"] obtain pth1 cur1 tot1 cov1 where
    l: "traverse_loop_fp fl g es ([s], s, Num 0, {}) = Some ([s] @ pth1, cur1, tot1, cov1)"
    and b: "rounding fl \<and> (\<forall>r\<in>set (routes g). 0 \<le> distance r) \<and> (\<forall>e\<in>set es. 0 \<le> distance e) \<and>
      nonneg_double fl (Num 0) \<longrightarrow>
        nonneg_double fl tot1 \<and>
        (\<forall>low. nonneg_double fl low \<and> js_le low (Num 0) \<longrightarrow>
           js_le (fold ?add (distinct_edges {} es) low) tot1)" by blast
  have b': "nonneg_double fl tot1 \<and> js_le (double_sum fl (distinct_edges {} es)) tot1"
    if h: "rounding fl" "\<forall>r\<in>set (routes g). 0 \<le> distance r" "\<forall>e\<in>set es. 0 \<le> distance e"
  proof -
    note z = nonneg_double_zero [OF h(1)]
    from b h z have "nonneg_double fl tot1"
      and "\<And>low. nonneg_double fl low \<Longrightarrow> js_le low (Num 0) \<Longrightarrow>
           js_le (fold ?add (distinct_edges {} es) low) tot1" by blast+
    from this(1) this(2) [OF z] show ?thesis by (simp add: double_sum_def)
  qed
  obtain rp where rp: "findShortestPath_fp fl g cur1 s = Some rp"
    using findShortestPath_fp_returns by blast
  show ?thesis
  proof (cases "\<exists>r. rp = Some r \<and> length (sp_path r) > 1")
    case True
    then obtain r where r: "rp = Some r" "length (sp_path r) > 1" by blast
    from append_hops_fp_result [of fl g "sp_path r" "[s] @ pth1" tot1] obtain pth2 tot2 where
      a: "append_hops_fp fl g (sp_path r) ([s] @ pth1, tot1) = (([s] @ pth1) @ pth2, tot2)"
      and c: "rounding fl \<and> (\<forall>r\<in>set (routes g). 0 \<le> distance r) \<and> nonneg_double fl tot1 \<longrightarrow>
        js_le tot1 tot2 \<and> nonneg_double fl tot2" by blast
    from r l rp a have "traverseEdgesInOrder_fp fl g s es =
       Some (Some \<lparr>path = s # (pth1 @ pth2), totalDistance = tot2\<rparr>)"
      by (simp add: traverseEdgesInOrder_fp_def)
    moreover have "rounding fl \<and> (\<forall>r\<in>set (routes g). 0 \<le> distance r) \<and>
        (\<forall>e\<in>set es. 0 \<le> distance e) \<longrightarrow> js_le (double_sum fl (distinct_edges {} es)) tot2"
      using b' c by (blast intro: js_le_trans)
    ultimately show ?thesis by blast
  next
    case False
    with l rp have "traverseEdgesInOrder_fp fl g s es =
       Some (Some \<lparr>path = s # pth1, totalDistance = tot1\<rparr>)"
      by (auto simp: traverseEdgesInOrder_fp_def split: option.splits)
    with b' show ?thesis by blast
  qed
qed

subsection \<open>\<open>findShortestPath\<close> against the distances of the graph\<close>

lemma fsp_huge_path: "findShortestPath_fp binary64 huge_path 1 3 = Some None"
  by (simp add: findShortestPath_fp_def huge_path_def mk_node_def mk_route_def init_state_def
      init_node_def set_add_def dijkstra_loop_fp.simps pick_min_def pick_step_def set_delete_def
      relax_route_fp_def binary64_huge binary64_huge_double huge_w_gt Let_def)

lemma fsp_triangle_fp:
  "findShortestPath_fp binary64 triangle 1 3 =
     Some (Some \<lparr>sp_path = [1, 2, 3], sp_distance = Num 20\<rparr>)"
  by (simp add: findShortestPath_fp_def triangle_def mk_node_def mk_route_def init_state_def
      init_node_def set_add_def dijkstra_loop_fp.simps pick_min_def pick_step_def set_delete_def
      relax_route_fp_def reconstruct.simps binary64_numeral Let_def)

lemma fsp_two_parts_fp: "findShortestPath_fp binary64 two_parts 1 3 = Some None"
  by (simp add: findShortestPath_fp_def two_parts_def mk_node_def mk_route_def init_state_def
      init_node_def set_add_def dijkstra_loop_fp.simps pick_min_def pick_step_def set_delete_def
      relax_route_fp_def reconstruct.simps binary64_numeral Let_def)

text \<open>
  Claim C6 says that the resolver returns \<open>null\<close> exactly when the target cannot be reached
  from the source. In double arithmetic a target that can be reached is not found when the
  sums of the distances on the way overflow: in \<open>huge_path\<close>, a graph whose routes join
  nodes of the node list and have non-negative distances, the path 1, 2, 3 leads from node
  1 to node 3, the tentative distance of node 3 is \<open>2 ^ 1023 + 2 ^ 1023 = Infinity\<close>, which is
  not less than the \<open>Infinity\<close> that node 3 starts with, and the resolver returns \<open>null\<close>.
\<close>

theorem findShortestPath_double_overflow:
  "well_formed huge_path \<and> linked (routes huge_path) [1, 2, 3] \<and>
   findShortestPath_fp binary64 huge_path 1 3 = Some None"
proof -
  have "well_formed huge_path"
    by (simp add: well_formed_def huge_path_def mk_route_def mk_node_def huge_w_pos)
  moreover have "linked (routes huge_path) [1, 2, 3]"
    by (simp add: huge_path_def mk_route_def joins_def)
  ultimately show ?thesis using fsp_huge_path by simp
qed

text \<open>
  Claim C6 as amended, in double arithmetic. For every graph and every node id, the
  resolver returns the one-node path with distance 0 when source and target are equal,
  and for every graph and every two node ids it returns (\<open>null\<close> or a path).
  For every graph whose routes join nodes of the node list and have non-negative
  distances, and for every two node ids: the resolver returns \<open>null\<close> exactly when no path
  from the source to the target has a finite total distance, the distances of the path
  being added in doubles from the source on (so also when no path leads to the target);
  and the distance it reports with a path is such a total of some path from the source to
  the target and the least one (every other path has a total that is at least as large,
  or \<open>Infinity\<close>).
\<close>

theorem findShortestPath_double_correct:
  "findShortestPath_fp binary64 g s s = Some (Some \<lparr>sp_path = [s], sp_distance = Num 0\<rparr>) \<and>
   (\<exists>res. findShortestPath_fp binary64 g s t = Some res) \<and>
   (well_formed g \<longrightarrow>
      (findShortestPath_fp binary64 g s t = Some None \<longleftrightarrow>
         \<not> (\<exists>x. reach_fp binary64 (routes g) s t (Num x))) \<and>
      (\<forall>r. findShortestPath_fp binary64 g s t = Some (Some r) \<longrightarrow>
         (\<exists>x. sp_distance r = Num x \<and> reach_fp binary64 (routes g) s t (Num x) \<and>
              (\<forall>w. reach_fp binary64 (routes g) s t w \<longrightarrow> js_le (Num x) w))))"
  using findShortestPath_fp_dist [OF rounding_binary64, of g s t]
    findShortestPath_fp_returns [of binary64 g s t]
  by (simp add: findShortestPath_fp_def)

theorem findShortestPath_double_correct_witness:
  "well_formed triangle \<and>
   findShortestPath_fp binary64 triangle 1 3 =
     Some (Some \<lparr>sp_path = [1, 2, 3], sp_distance = Num 20\<rparr>) \<and>
   reach_fp binary64 (routes triangle) 1 3 (Num 20) \<and>
   \<not> reach_fp binary64 (routes triangle) 1 3 (Num 19) \<and>
   well_formed two_parts \<and> findShortestPath_fp binary64 two_parts 1 3 = Some None \<and>
   \<not> (\<exists>x. reach_fp binary64 (routes two_parts) 1 3 (Num x))"
proof -
  have w1: "well_formed triangle"
    by (simp add: well_formed_def triangle_def mk_route_def mk_node_def)
  have w2: "well_formed two_parts"
    by (simp add: well_formed_def two_parts_def mk_route_def mk_node_def)
  note e1 = fsp_triangle_fp and e2 = fsp_two_parts_fp
  from findShortestPath_double_correct [of triangle 1 3] w1 e1
  have r: "reach_fp binary64 (routes triangle) 1 3 (Num 20)"
    and m: "\<forall>w. reach_fp binary64 (routes triangle) 1 3 w \<longrightarrow> js_le (Num 20) w" by auto
  from m have n: "\<not> reach_fp binary64 (routes triangle) 1 3 (Num 19)" by fastforce
  from findShortestPath_double_correct [of two_parts 1 3] w2 e2
  have u: "\<not> (\<exists>x. reach_fp binary64 (routes two_parts) 1 3 (Num x))" by blast
  from w1 w2 e1 e2 r n u show ?thesis by blast
qed

subsection \<open>The optimizer on a single route\<close>

text \<open>
  Claim C8 says that on a graph of two nodes and one route the optimizer returns the walk
  \<open>a, b, a\<close> with twice the distance of the route. With a route of distance \<open>2 ^ 1023\<close>,
  which is a double, the total distance of that walk is \<open>Infinity\<close> in double arithmetic,
  which is not less than the \<open>Infinity\<close> that the search starts with: no walk is kept, and
  the optimizer returns the empty path with the total distance \<open>Infinity\<close>.
\<close>

theorem optimizeRoute_double_overflow:
  "binary64 huge_w = Num huge_w \<and>
   optimizeRoute_fp binary64 (\<lambda>_ _ xs. xs) huge_pair =
     Some (Optimized \<lparr>path = [], totalDistance = Infinity\<rparr>)"
proof -
  have j: "joins (mk_route 1 1 2 huge_w) 1 2" by (simp add: joins_def mk_route_def)
  have d: "distance (mk_route 1 1 2 huge_w) = huge_w" by (simp add: mk_route_def)
  have n: "node_id (mk_node 1) = 1" "node_id (mk_node 2) = 2" by (simp_all add: mk_node_def)
  from optimizeRoute_fp_pair [of huge_pair "mk_node 1" "mk_node 2" 1 2 "mk_route 1 1 2 huge_w"
      binary64 "\<lambda>_ _ xs. xs"] j n d binary64_huge binary64_huge_twice
  show ?thesis by (simp add: huge_pair_def)
qed

text \<open>
  Claim C8 as amended, in double arithmetic. For a graph of exactly two nodes \<open>a\<close> and \<open>b\<close>
  and exactly one route between them (in either direction) whose distance is a double and
  not negative: if the distance is less than \<open>2 ^ 1023\<close>, the optimizer returns the walk
  \<open>a, b, a\<close>, where \<open>a\<close> is the first node of the node list, with a total distance of
  exactly twice the distance of the route; otherwise it returns the empty path with the
  total distance \<open>Infinity\<close>.
\<close>

theorem optimizeRoute_double_single_edge:
  assumes "nodes g = [na, nb]" "node_id na = a" "node_id nb = b" "a \<noteq> b"
    and "routes g = [r]" "joins r a b"
    and "0 \<le> distance r" "binary64 (distance r) = Num (distance r)"
  shows "optimizeRoute_fp binary64 sh g =
     Some (Optimized (if distance r < 2 ^ 1023
        then \<lparr>path = [a, b, a], totalDistance = Num (2 * distance r)\<rparr>
        else \<lparr>path = [], totalDistance = Infinity\<rparr>))"
  using optimizeRoute_fp_pair [OF assms(1-6), of binary64 sh] assms(8)
    binary64_doubling [OF assms(7,8)]
  by simp

theorem optimizeRoute_double_single_edge_witness:
  "joins (mk_route 1 2 1 7) 1 2 \<and> binary64 7 = Num 7 \<and>
   optimizeRoute_fp binary64 (\<lambda>_ _ xs. xs)
       \<lparr>nodes = [mk_node 1, mk_node 2], routes = [mk_route 1 2 1 7]\<rparr> =
     Some (Optimized \<lparr>path = [1, 2, 1], totalDistance = Num 14\<rparr>)"
proof -
  have j: "joins (mk_route 1 2 1 7) 1 2" by (simp add: joins_def mk_route_def)
  have d: "distance (mk_route 1 2 1 7) = 7" by (simp add: mk_route_def)
  have n: "node_id (mk_node 1) = 1" "node_id (mk_node 2) = 2" by (simp_all add: mk_node_def)
  have b: "binary64 7 = Num 7" by (simp add: binary64_numeral)
  from optimizeRoute_double_single_edge [of "\<lparr>nodes = [mk_node 1, mk_node 2], routes = [mk_route 1 2 1 7]\<rparr>"
      "mk_node 1" "mk_node 2" 1 2 "mk_route 1 2 1 7" "\<lambda>_ _ xs. xs"] j n b d
  have "optimizeRoute_fp binary64 (\<lambda>_ _ xs. xs)
       \<lparr>nodes = [mk_node 1, mk_node 2], routes = [mk_route 1 2 1 7]\<rparr> =
     Some (Optimized \<lparr>path = [1, 2, 1], totalDistance = Num 14\<rparr>)"
    by simp
  with j b show ?thesis by simp
qed

subsection \<open>A lower bound on the distance of a walk\<close>

lemma traverse_tiny_triangle:
  "traverseEdgesInOrder_fp binary64 tiny_triangle 1 (routes tiny_triangle) =
     Some (Some \<lparr>path = [1, 2, 3, 1], totalDistance = Num 1\<rparr>)"
  by (simp add: traverseEdgesInOrder_fp_def tiny_triangle_def mk_node_def mk_route_def
      traverse_edge_fp_def connect_to_fp_def findShortestPath_fp_def binary64_one_tiny
      binary64_one Let_def)

lemma traverse_triangle_fp:
  "traverseEdgesInOrder_fp binary64 triangle 1
       [mk_route 1 1 2 10, mk_route 2 2 3 10, mk_route 1 1 2 10] =
     Some (Some \<lparr>path = [1, 2, 3, 2, 1], totalDistance = Num 40\<rparr>)"
  by (simp add: traverseEdgesInOrder_fp_def triangle_def mk_node_def mk_route_def
      traverse_edge_fp_def connect_to_fp_def findShortestPath_fp_def init_state_def
      init_node_def set_add_def dijkstra_loop_fp.simps pick_min_def pick_step_def set_delete_def
      relax_route_fp_def reconstruct.simps getDistanceBetweenNodes_def binary64_numeral Let_def)

text \<open>
  Claim C10 says that the total distance of a walk is at least the sum of the distances
  of the distinct edges of the order. In double arithmetic the total can be less than that
  sum, because every addition is rounded: in \<open>tiny_triangle\<close> the walk 1, 2, 3, 1 over the
  three routes has the total distance 1, since \<open>1 + 1 / 2 ^ 53\<close> is rounded to 1 twice,
  and the sum of the three distances is \<open>1 + 1 / 2 ^ 52\<close>.
\<close>

theorem traverseEdgesInOrder_double_below_sum:
  "traverseEdgesInOrder_fp binary64 tiny_triangle 1 (routes tiny_triangle) =
     Some (Some \<lparr>path = [1, 2, 3, 1], totalDistance = Num 1\<rparr>) \<and>
   1 < sum_list (map distance (distinct_edges {} (routes tiny_triangle)))"
proof -
  have "1 < sum_list (map distance (distinct_edges {} (routes tiny_triangle)))"
    by (simp add: tiny_triangle_def mk_route_def tiny_w_def)
  with traverse_tiny_triangle show ?thesis by simp
qed

text \<open>
  Claim C10 as amended, in double arithmetic. In a graph whose routes have non-negative
  distances, for every start node and every edge order of non-negative distances, the walk
  builder returns a walk, and its total distance is at least the sum in doubles of the
  distances of the distinct edges of the order, added in that order: the distance of each
  is added once, the connecting hops add a non-negative distance, and the rounding is
  monotone.
\<close>

theorem traverseEdgesInOrder_double_lower_bound:
  assumes "\<forall>r\<in>set (routes g). 0 \<le> distance r" "\<forall>e\<in>set es. 0 \<le> distance e"
  shows "\<exists>w. traverseEdgesInOrder_fp binary64 g s es = Some (Some w) \<and>
     js_le (double_sum binary64 (distinct_edges {} es)) (totalDistance w)"
proof -
  from traverseEdgesInOrder_fp_result [of binary64 g s es] obtain pth tot where
    "traverseEdgesInOrder_fp binary64 g s es = Some (Some \<lparr>path = s # pth, totalDistance = tot\<rparr>)"
    "rounding binary64 \<and> (\<forall>r\<in>set (routes g). 0 \<le> distance r) \<and> (\<forall>e\<in>set es. 0 \<le> distance e) \<longrightarrow>
        js_le (double_sum binary64 (distinct_edges {} es)) tot" by blast
  with assms rounding_binary64 show ?thesis by simp
qed

theorem traverseEdgesInOrder_double_lower_bound_witness:
  "traverseEdgesInOrder_fp binary64 triangle 1
       [mk_route 1 1 2 10, mk_route 2 2 3 10, mk_route 1 1 2 10] =
     Some (Some \<lparr>path = [1, 2, 3, 2, 1], totalDistance = Num 40\<rparr>) \<and>
   js_le (double_sum binary64
     (distinct_edges {} [mk_route 1 1 2 10, mk_route 2 2 3 10, mk_route 1 1 2 10])) (Num 40)"
proof -
  let ?es = "[mk_route 1 1 2 10, mk_route 2 2 3 10, mk_route 1 1 2 10]"
  have h: "\<forall>r\<in>set (routes triangle). 0 \<le> distance r"
    by (simp add: triangle_def mk_route_def)
  have h2: "\<forall>e\<in>set ?es. 0 \<le> distance e" by (simp add: mk_route_def)
  from traverseEdgesInOrder_double_lower_bound [OF h h2, of 1] traverse_triangle_fp
  show ?thesis by simp
qed

end
